theory Spec2Isabelle
  imports Complex_Main "HOL-Library.AList"
begin

section \<open>Run-time containers\<close>

text \<open>
  A JavaScript \<open>Map\<close> keeps its entries in insertion order and \<open>set\<close> on a key that is
  present replaces the value in place: an association list with \<open>map_of\<close> for
  \<open>get\<close>/\<open>has\<close> and \<open>AList.update\<close> for \<open>set\<close>.  A \<open>Set\<close> iterates in insertion order
  and \<open>add\<close> of a member changes nothing: a list with \<open>Set_add\<close>.
\<close>

definition Set_add :: "'a \<Rightarrow> 'a list \<Rightarrow> 'a list" where
  "Set_add x s = (if x \<in> set s then s else s @ [x])"

text \<open>JavaScript truthiness of an optional boolean (\<open>!!x\<close>).\<close>

definition truthy :: "bool option \<Rightarrow> bool" where
  "truthy b = (b = Some True)"

section \<open>RushConstants\<close>

text \<open>
  Modelled from the spec: the module \<open>RushConstants\<close> is missing.
  The command kinds and the names of the two special commands are the ones the parser
  tests print (\<open>"build"\<close>, \<open>"rebuild"\<close>, \<open>"global"\<close>, \<open>"bulk"\<close>, \<open>"phased"\<close>); the phase name
  prefix is the one of the example in the documentation of \<open>IPhase.logFilenameIdentifier\<close>
  (\<open>"_phase:compile"\<close>).
\<close>

datatype CommandKind = bulkCommandKind | globalCommandKind | phasedCommandKind

definition buildCommandName :: string where
  "buildCommandName = ''build''"

definition rebuildCommandName :: string where
  "rebuildCommandName = ''rebuild''"

definition phaseNamePrefix :: string where
  "phaseNamePrefix = ''_phase:''"

section \<open>The data model of command-line.json\<close>

record IPhaseJson =
  pj_name :: string
  pj_self :: "string list option"
  pj_upstream :: "string list option"
  pj_ignoreMissingScript :: "bool option"
  pj_allowWarningsOnSuccess :: "bool option"

text \<open>
  \<open>CommandJson\<close> is a union discriminated by \<open>commandKind\<close>; the fields of the other kinds
  are absent (\<open>None\<close>, \<open>[]\<close>) and never read.
\<close>

record CommandJson =
  cj_commandKind :: CommandKind
  cj_name :: string
  cj_safeForSimultaneousRushProcesses :: "bool option"
  cj_phases :: "string list"
  cj_watchOptions :: "(bool \<times> string list) option"
  cj_ignoreMissingScript :: "bool option"
  cj_allowWarningsInSuccessfulBuild :: "bool option"
  cj_ignoreDependencyOrder :: "bool option"
  cj_watchForChanges :: "bool option"
  cj_disableBuildCache :: "bool option"
  cj_incremental :: "bool option"
  cj_enableParallelism :: "bool option"

datatype ParameterKind = flagParameter | choiceParameter | stringParameter

record ParameterJson =
  pr_parameterKind :: ParameterKind
  pr_longName :: string
  pr_alternatives :: "string list"
  pr_defaultValue :: "string option"
  pr_associatedCommands :: "string list option"
  pr_associatedPhases :: "string list option"

record ICommandLineJson =
  clj_phases :: "IPhaseJson list option"
  clj_commands :: "CommandJson list option"
  clj_parameters :: "ParameterJson list option"

record ICommandLineConfigurationOptions =
  doNotIncludeDefaultBuildCommands :: "bool option"

section \<open>The configuration object and its heap\<close>

text \<open>
  Phases, sets of phases and sets of parameters are objects that several owners share, so
  they live in stores and are referred to by address (the index in the store).  The sets
  \<open>dependencies.self\<close>, \<open>dependencies.upstream\<close> and \<open>associatedParameters\<close> of a phase have
  that phase as their only owner and are kept inside it.  A normalized parameter is the
  object pushed to \<open>this.parameters\<close>: its address is its index there.
\<close>

record IPhase =
  ph_name :: string
  ph_isSynthetic :: bool
  ph_logFilenameIdentifier :: string
  ph_associatedParameters :: "nat list"
  ph_self :: "nat list"
  ph_upstream :: "nat list"
  ph_ignoreMissingScript :: bool
  ph_allowWarningsOnSuccess :: bool

text \<open>
  A normalized command: the fields of the JSON object that was spread into it
  (\<open>cmd_json\<close>) and the fields written next to the spread.  \<open>cmd_phases\<close> and
  \<open>cmd_watchPhases\<close> are \<open>None\<close> for a global command, which has no such property.
\<close>

record Command =
  cmd_json :: CommandJson
  cmd_commandKind :: CommandKind
  cmd_isSynthetic :: bool
  cmd_associatedParameters :: nat
  cmd_phases :: "nat option"
  cmd_watchPhases :: "nat option"
  cmd_alwaysWatch :: bool
  cmd_disableBuildCache :: "bool option"

definition cmd_name :: "Command \<Rightarrow> string" where
  "cmd_name c = cj_name (cmd_json c)"

record IParameterJson =
  np_parameterKind :: ParameterKind
  np_longName :: string
  np_alternatives :: "string list"
  np_defaultValue :: "string option"
  np_associatedCommands :: "string list"
  np_associatedPhases :: "string list"

record CommandLineConfiguration =
  phaseHeap :: "IPhase list"
  phaseSetHeap :: "nat list list"
  parameterSetHeap :: "nat list list"
  commands :: "(string \<times> Command) list"
  phases :: "(string \<times> nat) list"
  parameters :: "IParameterJson list"
  syntheticPhasesByTranslatedBulkCommandName :: "(string \<times> nat) list"

definition emptyConfiguration :: CommandLineConfiguration where
  "emptyConfiguration =
     \<lparr>phaseHeap = [], phaseSetHeap = [], parameterSetHeap = [], commands = [], phases = [],
      parameters = [], syntheticPhasesByTranslatedBulkCommandName = []\<rparr>"

text \<open>Every \<open>throw new Error(...)\<close> of the constructor, with the names its message quotes.\<close>

datatype Error =
    PhaseSpecifiedMoreThanOnce string
  | InvalidPhaseName string
  | SelfDependencyDoesNotExist string string
  | UpstreamDependencyDoesNotExist string string
  | SelfCycle string "string list"
  | CommandSpecifiedMoreThanOnce string
  | CommandPhaseDoesNotExist string string
  | WatchPhaseDoesNotExist string string
  | BuildCommandKindGlobal string
  | BuildCommandSafeForSimultaneous string
  | BuildPhasesNotFound
  | DefaultValueNotAnAlternative string string "string list"
  | ParameterCommandDoesNotExist string string
  | ParameterPhaseDoesNotExist string string
  | ParameterListsNoAssociatedCommands string
  | ParameterListsNoAssociatedPhases string
  | UndefinedDereference
  | LoadAndValidateError string

text \<open>Reading a phase object; an address outside the store has no dependencies.\<close>

definition selfOf :: "IPhase list \<Rightarrow> nat \<Rightarrow> nat list" where
  "selfOf heap a = (if a < length heap then ph_self (heap ! a) else [])"

definition upstreamOf :: "IPhase list \<Rightarrow> nat \<Rightarrow> nat list" where
  "upstreamOf heap a = (if a < length heap then ph_upstream (heap ! a) else [])"

definition nameOf :: "IPhase list \<Rightarrow> nat \<Rightarrow> string" where
  "nameOf heap a = (if a < length heap then ph_name (heap ! a) else [])"

section \<open>Phase names\<close>

text \<open>
  The regular expression \<open>^${phaseNamePrefix}[a-z][a-z0-9]*([-][a-z0-9]+)*$\<close>: after the
  prefix a lowercase letter, then letters and digits, where a hyphen may stand only
  directly before a letter or digit.  \<open>matchTail h\<close> reads the rest of the name, \<open>h\<close>
  telling that the character before was a hyphen.
\<close>

definition isLowercase :: "char \<Rightarrow> bool" where
  "isLowercase c = (97 \<le> (of_char c :: nat) \<and> (of_char c :: nat) \<le> 122)"

definition isDigit :: "char \<Rightarrow> bool" where
  "isDigit c = (48 \<le> (of_char c :: nat) \<and> (of_char c :: nat) \<le> 57)"

fun matchTail :: "bool \<Rightarrow> string \<Rightarrow> bool" where
  "matchTail h [] = (\<not> h)"
| "matchTail h (c # cs) =
     (if isLowercase c \<or> isDigit c then matchTail False cs
      else if c = CHR ''-'' \<and> \<not> h then matchTail True cs
      else False)"

fun stripPrefix :: "string \<Rightarrow> string \<Rightarrow> string option" where
  "stripPrefix [] s = Some s"
| "stripPrefix (p # ps) [] = None"
| "stripPrefix (p # ps) (c # cs) = (if p = c then stripPrefix ps cs else None)"

definition matchesPhaseNameRegexp :: "string \<Rightarrow> string \<Rightarrow> bool" where
  "matchesPhaseNameRegexp prefix n =
     (case stripPrefix prefix n of
        None \<Rightarrow> False
      | Some [] \<Rightarrow> False
      | Some (c # cs) \<Rightarrow> isLowercase c \<and> matchTail False cs)"

definition normalizeNameForLogFilenameIdentifiers :: "string \<Rightarrow> string" where
  "normalizeNameForLogFilenameIdentifiers n =
     map (\<lambda>c. if c = CHR '':'' then CHR ''_'' else c) n"

section \<open>The constructor: phases\<close>

definition processedPhase :: "IPhaseJson \<Rightarrow> IPhase" where
  "processedPhase phase =
     \<lparr>ph_name = pj_name phase,
      ph_isSynthetic = False,
      ph_logFilenameIdentifier = normalizeNameForLogFilenameIdentifiers (pj_name phase),
      ph_associatedParameters = [],
      ph_self = [],
      ph_upstream = [],
      ph_ignoreMissingScript = truthy (pj_ignoreMissingScript phase),
      ph_allowWarningsOnSuccess = truthy (pj_allowWarningsOnSuccess phase)\<rparr>"

text \<open>The first loop over \<open>phasesJson\<close>: duplicate check, name check, a fresh phase object.\<close>

fun registerPhases :: "IPhaseJson list \<Rightarrow> CommandLineConfiguration \<Rightarrow> Error + CommandLineConfiguration" where
  "registerPhases [] this = Inr this"
| "registerPhases (phase # rest) this =
     (if map_of (phases this) (pj_name phase) \<noteq> None
        then Inl (PhaseSpecifiedMoreThanOnce (pj_name phase))
      else if \<not> matchesPhaseNameRegexp phaseNamePrefix (pj_name phase)
        then Inl (InvalidPhaseName (pj_name phase))
      else registerPhases rest
             (this\<lparr>phaseHeap := phaseHeap this @ [processedPhase phase],
                   phases := AList.update (pj_name phase) (length (phaseHeap this)) (phases this)\<rparr>))"

text \<open>
  The second loop resolves the names of the dependencies; \<open>phase\<close> is the address of the
  phase whose sets are filled.
\<close>

fun addSelfDependencies :: "nat \<Rightarrow> string list \<Rightarrow> CommandLineConfiguration \<Rightarrow> Error + CommandLineConfiguration" where
  "addSelfDependencies phase [] this = Inr this"
| "addSelfDependencies phase (dependencyName # rest) this =
     (case map_of (phases this) dependencyName of
        None \<Rightarrow> Inl (SelfDependencyDoesNotExist (nameOf (phaseHeap this) phase) dependencyName)
      | Some dependency \<Rightarrow>
          addSelfDependencies phase rest
            (this\<lparr>phaseHeap := (phaseHeap this)
               [phase := (phaseHeap this ! phase)
                  \<lparr>ph_self := Set_add dependency (ph_self (phaseHeap this ! phase))\<rparr>]\<rparr>))"

fun addUpstreamDependencies :: "nat \<Rightarrow> string list \<Rightarrow> CommandLineConfiguration \<Rightarrow> Error + CommandLineConfiguration" where
  "addUpstreamDependencies phase [] this = Inr this"
| "addUpstreamDependencies phase (dependencyName # rest) this =
     (case map_of (phases this) dependencyName of
        None \<Rightarrow> Inl (UpstreamDependencyDoesNotExist (nameOf (phaseHeap this) phase) dependencyName)
      | Some dependency \<Rightarrow>
          addUpstreamDependencies phase rest
            (this\<lparr>phaseHeap := (phaseHeap this)
               [phase := (phaseHeap this ! phase)
                  \<lparr>ph_upstream := Set_add dependency (ph_upstream (phaseHeap this ! phase))\<rparr>]\<rparr>))"

fun resolvePhaseDependencies :: "IPhaseJson list \<Rightarrow> CommandLineConfiguration \<Rightarrow> Error + CommandLineConfiguration" where
  "resolvePhaseDependencies [] this = Inr this"
| "resolvePhaseDependencies (rawPhase # rest) this =
     (case map_of (phases this) (pj_name rawPhase) of
        None \<Rightarrow> Inl UndefinedDereference
      | Some phase \<Rightarrow>
          (case (case pj_self rawPhase of
                   None \<Rightarrow> Inr this
                 | Some selfDependencies \<Rightarrow> addSelfDependencies phase selfDependencies this) of
             Inl e \<Rightarrow> Inl e
           | Inr this1 \<Rightarrow>
               (case (case pj_upstream rawPhase of
                        None \<Rightarrow> Inr this1
                      | Some upstreamDependencies \<Rightarrow>
                          addUpstreamDependencies phase upstreamDependencies this1) of
                  Inl e \<Rightarrow> Inl e
                | Inr this2 \<Rightarrow> resolvePhaseDependencies rest this2)))"

subsection \<open>The check for cycles of self dependencies\<close>

text \<open>
  \<open>_checkForPhaseSelfCycles\<close> with its loop over \<open>phase.dependencies.self\<close> as the second
  function.  \<open>phasesInPath\<close> gets a dependency added before the recursive call and deleted
  after it, and the dependency was not a member: on return the set is what it was, so the
  model passes it down and does not return it.  The result is \<open>cycleFreePhases\<close>.
\<close>

definition heapNodes :: "IPhase list \<Rightarrow> nat set" where
  "heapNodes heap = {..<length heap} \<union> (\<Union>a\<in>{..<length heap}. set (selfOf heap a))"

lemma finite_heapNodes: "finite (heapNodes heap)"
  by (simp add: heapNodes_def)

lemma selfOf_outside: "d \<notin> heapNodes heap \<Longrightarrow> selfOf heap d = []"
  by (auto simp: heapNodes_def selfOf_def)

function checkForPhaseSelfCycles :: "IPhase list \<Rightarrow> nat \<Rightarrow> nat list \<Rightarrow> nat list \<Rightarrow> Error + nat list"
  and checkSelfDependencies :: "IPhase list \<Rightarrow> nat list \<Rightarrow> nat list \<Rightarrow> nat list \<Rightarrow> Error + nat list" where
  "checkForPhaseSelfCycles heap phase phasesInPath cycleFreePhases =
     (if phase \<in> set cycleFreePhases then Inr cycleFreePhases
      else (case checkSelfDependencies heap (selfOf heap phase) phasesInPath cycleFreePhases of
              Inl e \<Rightarrow> Inl e
            | Inr cycleFreePhases' \<Rightarrow> Inr (Set_add phase cycleFreePhases')))"
| "checkSelfDependencies heap [] phasesInPath cycleFreePhases = Inr cycleFreePhases"
| "checkSelfDependencies heap (dependency # rest) phasesInPath cycleFreePhases =
     (if dependency \<in> set phasesInPath
        then Inl (SelfCycle (nameOf heap dependency) (map (nameOf heap) phasesInPath))
      else (case checkForPhaseSelfCycles heap dependency (phasesInPath @ [dependency]) cycleFreePhases of
              Inl e \<Rightarrow> Inl e
            | Inr cycleFreePhases' \<Rightarrow> checkSelfDependencies heap rest phasesInPath cycleFreePhases'))"
  by pat_completeness auto

text \<open>
  A recursive call extends the path by a phase that was not on it; a phase outside the
  store has no dependencies.
\<close>

termination checkForPhaseSelfCycles
proof (relation "measures
    [\<lambda>x. case x of Inl (h, p, path, s) \<Rightarrow> card (heapNodes h - set path)
                 | Inr (h, ds, path, s) \<Rightarrow> card (heapNodes h - set path),
     \<lambda>x. case x of Inl (h, p, path, s) \<Rightarrow> 2 * length (selfOf h p) + 1
                 | Inr (h, ds, path, s) \<Rightarrow> 2 * length ds]", goal_cases)
  case 1
  then show ?case by simp
next
  case (2 heap phase phasesInPath cycleFreePhases)
  then show ?case by simp
next
  case (3 heap dependency rest phasesInPath cycleFreePhases)
  show ?case
  proof (cases "dependency \<in> heapNodes heap")
    case True
    with 3 have "heapNodes heap - set (phasesInPath @ [dependency])
        \<subset> heapNodes heap - set phasesInPath"
      by auto
    then have "card (heapNodes heap - set (phasesInPath @ [dependency]))
        < card (heapNodes heap - set phasesInPath)"
      by (intro psubset_card_mono) (simp_all add: finite_heapNodes)
    then show ?thesis by simp
  next
    case False
    then have "heapNodes heap - set (phasesInPath @ [dependency])
        = heapNodes heap - set phasesInPath"
      by auto
    with False show ?thesis by (simp add: selfOf_outside)
  qed
next
  case (4 heap dependency rest phasesInPath cycleFreePhases x)
  then show ?case by simp
qed

text \<open>
  The loop \<open>for (const phase of this.phases.values())\<close>; every call starts from the empty
  \<open>cycleDetector\<close> and shares \<open>safePhases\<close>.
\<close>

fun checkAllPhasesForSelfCycles :: "IPhase list \<Rightarrow> nat list \<Rightarrow> nat list \<Rightarrow> Error + nat list" where
  "checkAllPhasesForSelfCycles heap [] safePhases = Inr safePhases"
| "checkAllPhasesForSelfCycles heap (phase # rest) safePhases =
     (case checkForPhaseSelfCycles heap phase [] safePhases of
        Inl e \<Rightarrow> Inl e
      | Inr safePhases' \<Rightarrow> checkAllPhasesForSelfCycles heap rest safePhases')"

definition constructPhases :: "IPhaseJson list \<Rightarrow> CommandLineConfiguration \<Rightarrow> Error + CommandLineConfiguration" where
  "constructPhases phasesJson this =
     (case registerPhases phasesJson this of
        Inl e \<Rightarrow> Inl e
      | Inr this1 \<Rightarrow>
          (case resolvePhaseDependencies phasesJson this1 of
             Inl e \<Rightarrow> Inl e
           | Inr this2 \<Rightarrow>
               (case checkAllPhasesForSelfCycles (phaseHeap this2) (map snd (phases this2)) [] of
                  Inl e \<Rightarrow> Inl e
                | Inr safePhases \<Rightarrow> Inr this2)))"

section \<open>The constructor: commands\<close>

fun addCommandPhases :: "(string \<times> nat) list \<Rightarrow> string \<Rightarrow> string list \<Rightarrow> nat list \<Rightarrow> Error + nat list" where
  "addCommandPhases phs commandName [] commandPhases = Inr commandPhases"
| "addCommandPhases phs commandName (phaseName # rest) commandPhases =
     (case map_of phs phaseName of
        None \<Rightarrow> Inl (CommandPhaseDoesNotExist commandName phaseName)
      | Some phase \<Rightarrow> addCommandPhases phs commandName rest (Set_add phase commandPhases))"

fun addWatchPhases :: "(string \<times> nat) list \<Rightarrow> string \<Rightarrow> string list \<Rightarrow> nat list \<Rightarrow> Error + nat list" where
  "addWatchPhases phs commandName [] watchPhases = Inr watchPhases"
| "addWatchPhases phs commandName (phaseName # rest) watchPhases =
     (case map_of phs phaseName of
        None \<Rightarrow> Inl (WatchPhaseDoesNotExist commandName phaseName)
      | Some phase \<Rightarrow> addWatchPhases phs commandName rest (Set_add phase watchPhases))"

subsection \<open>Implicit phase dependency expansion\<close>

text \<open>
  The loop \<open>for (const phase of commandPhases)\<close> adds to the set it iterates, and the
  iteration of a \<open>Set\<close> reaches the members added on the way: \<open>i\<close> is the position of the
  iterator in the insertion order.
\<close>

definition Set_addAll :: "'a list \<Rightarrow> 'a list \<Rightarrow> 'a list" where
  "Set_addAll xs s = foldl (\<lambda>s x. Set_add x s) s xs"

definition dependencyTargets :: "IPhase list \<Rightarrow> nat set" where
  "dependencyTargets heap =
     (\<Union>a\<in>{..<length heap}. set (selfOf heap a) \<union> set (upstreamOf heap a))"

lemma Set_addAll_measure:
  "finite A \<Longrightarrow> set xs \<subseteq> A \<Longrightarrow>
   2 * card (A - set (Set_addAll xs s)) + length (Set_addAll xs s)
     \<le> 2 * card (A - set s) + length s"
proof (induction xs arbitrary: s)
  case Nil
  then show ?case by (simp add: Set_addAll_def)
next
  case (Cons x xs)
  have step: "2 * card (A - set (Set_add x s)) + length (Set_add x s)
      \<le> 2 * card (A - set s) + length s"
  proof (cases "x \<in> set s")
    case True
    then show ?thesis by (simp add: Set_add_def)
  next
    case False
    with Cons.prems have "A - set (Set_add x s) \<subset> A - set s"
      by (auto simp: Set_add_def)
    with Cons.prems have "card (A - set (Set_add x s)) < card (A - set s)"
      by (intro psubset_card_mono) simp_all
    with False show ?thesis by (simp add: Set_add_def)
  qed
  have "Set_addAll (x # xs) s = Set_addAll xs (Set_add x s)"
    by (simp add: Set_addAll_def)
  with Cons.IH [of "Set_add x s"] Cons.prems step show ?case by simp
qed

function expandPhases :: "IPhase list \<Rightarrow> nat \<Rightarrow> nat list \<Rightarrow> nat list" where
  "expandPhases heap i commandPhases =
     (if i < length commandPhases
        then expandPhases heap (Suc i)
               (Set_addAll (upstreamOf heap (commandPhases ! i))
                  (Set_addAll (selfOf heap (commandPhases ! i)) commandPhases))
      else commandPhases)"
  by pat_completeness auto

termination expandPhases
proof (relation "measure (\<lambda>(heap, i, s).
    2 * card (dependencyTargets heap - set s) + length s - i)", goal_cases)
  case 1
  then show ?case by simp
next
  case (2 heap i s)
  let ?A = "dependencyTargets heap"
  let ?s1 = "Set_addAll (selfOf heap (s ! i)) s"
  let ?s2 = "Set_addAll (upstreamOf heap (s ! i)) ?s1"
  have fin: "finite ?A"
    by (simp add: dependencyTargets_def)
  have sub: "set (selfOf heap (s ! i)) \<subseteq> ?A" "set (upstreamOf heap (s ! i)) \<subseteq> ?A"
    by (auto simp: dependencyTargets_def selfOf_def upstreamOf_def)
  have "2 * card (?A - set ?s2) + length ?s2 \<le> 2 * card (?A - set ?s1) + length ?s1"
    using fin sub(2) by (rule Set_addAll_measure)
  also have "\<dots> \<le> 2 * card (?A - set s) + length s"
    using fin sub(1) by (rule Set_addAll_measure)
  finally have "2 * card (?A - set ?s2) + length ?s2 \<le> 2 * card (?A - set s) + length s" .
  with 2 show ?case by simp
qed

subsection \<open>Normalizing a command\<close>

text \<open>
  The sets a command gets are fresh objects that nothing else refers to while the command
  is put together; they enter the stores when the command is complete.
\<close>

definition normalizePhasedCommand :: "CommandJson \<Rightarrow> CommandLineConfiguration \<Rightarrow> Error + Command \<times> CommandLineConfiguration" where
  "normalizePhasedCommand command this =
     (case addCommandPhases (phases this) (cj_name command) (cj_phases command) [] of
        Inl e \<Rightarrow> Inl e
      | Inr declaredPhases \<Rightarrow>
          (case (case cj_watchOptions command of
                   None \<Rightarrow> Inr (False, [])
                 | Some (alwaysWatch, watchPhaseNames) \<Rightarrow>
                     (case addWatchPhases (phases this) (cj_name command) watchPhaseNames [] of
                        Inl e \<Rightarrow> Inl e
                      | Inr watchPhases \<Rightarrow> Inr (alwaysWatch, watchPhases))) of
             Inl e \<Rightarrow> Inl e
           | Inr (alwaysWatch, watchPhases) \<Rightarrow>
               Inr (\<lparr>cmd_json = command,
                     cmd_commandKind = cj_commandKind command,
                     cmd_isSynthetic = False,
                     cmd_associatedParameters = length (parameterSetHeap this),
                     cmd_phases = Some (length (phaseSetHeap this)),
                     cmd_watchPhases = Some (Suc (length (phaseSetHeap this))),
                     cmd_alwaysWatch = alwaysWatch,
                     cmd_disableBuildCache = cj_disableBuildCache command\<rparr>,
                    this\<lparr>phaseSetHeap := phaseSetHeap this
                            @ [expandPhases (phaseHeap this) 0 declaredPhases, watchPhases],
                          parameterSetHeap := parameterSetHeap this @ [[]]\<rparr>)))"

definition normalizeGlobalCommand :: "CommandJson \<Rightarrow> CommandLineConfiguration \<Rightarrow> Command \<times> CommandLineConfiguration" where
  "normalizeGlobalCommand command this =
     (\<lparr>cmd_json = command,
       cmd_commandKind = cj_commandKind command,
       cmd_isSynthetic = False,
       cmd_associatedParameters = length (parameterSetHeap this),
       cmd_phases = None,
       cmd_watchPhases = None,
       cmd_alwaysWatch = False,
       cmd_disableBuildCache = cj_disableBuildCache command\<rparr>,
      this\<lparr>parameterSetHeap := parameterSetHeap this @ [[]]\<rparr>)"

definition syntheticPhase :: "CommandJson \<Rightarrow> nat \<Rightarrow> IPhase" where
  "syntheticPhase command address =
     \<lparr>ph_name = cj_name command,
      ph_isSynthetic = True,
      ph_logFilenameIdentifier = normalizeNameForLogFilenameIdentifiers (cj_name command),
      ph_associatedParameters = [],
      ph_self = [],
      ph_upstream = (if \<not> truthy (cj_ignoreDependencyOrder command) then [address] else []),
      ph_ignoreMissingScript = truthy (cj_ignoreMissingScript command),
      ph_allowWarningsOnSuccess = truthy (cj_allowWarningsInSuccessfulBuild command)\<rparr>"

text \<open>
  \<open>_translateBulkCommandToPhasedCommand\<close>: the synthetic phase gets the next address of
  the phase store, the set \<open>phases\<close> the next address of the store of phase sets;
  \<open>watchPhases\<close> is that same set when \<open>watchForChanges\<close> is set and a fresh empty set
  otherwise.
\<close>

definition translateBulkCommandToPhasedCommand :: "CommandJson \<Rightarrow> CommandLineConfiguration \<Rightarrow> Command \<times> CommandLineConfiguration" where
  "translateBulkCommandToPhasedCommand command this =
     (let phase = length (phaseHeap this);
          phasesSet = length (phaseSetHeap this);
          watch = truthy (cj_watchForChanges command)
      in (\<lparr>cmd_json = command,
            cmd_commandKind = phasedCommandKind,
            cmd_isSynthetic = True,
            cmd_associatedParameters = length (parameterSetHeap this),
            cmd_phases = Some phasesSet,
            cmd_watchPhases = Some (if watch then phasesSet else Suc phasesSet),
            cmd_alwaysWatch = watch,
            cmd_disableBuildCache = cj_disableBuildCache command\<rparr>,
          this\<lparr>phaseHeap := phaseHeap this @ [syntheticPhase command phase],
                phases := AList.update (cj_name command) phase (phases this),
                syntheticPhasesByTranslatedBulkCommandName :=
                  AList.update (cj_name command) phase
                    (syntheticPhasesByTranslatedBulkCommandName this),
                phaseSetHeap := phaseSetHeap this @ (if watch then [[phase]] else [[phase], []]),
                parameterSetHeap := parameterSetHeap this @ [[]]\<rparr>))"

definition normalizeCommand :: "CommandJson \<Rightarrow> CommandLineConfiguration \<Rightarrow> Error + Command \<times> CommandLineConfiguration" where
  "normalizeCommand command this =
     (case cj_commandKind command of
        phasedCommandKind \<Rightarrow> normalizePhasedCommand command this
      | globalCommandKind \<Rightarrow> Inr (normalizeGlobalCommand command this)
      | bulkCommandKind \<Rightarrow> Inr (translateBulkCommandToPhasedCommand command this))"

text \<open>
  The rules for the commands named \<open>build\<close> and \<open>rebuild\<close>; the result is the new value of
  the variable \<open>buildCommandPhases\<close>.
\<close>

definition checkBuildCommand :: "CommandJson \<Rightarrow> Command \<Rightarrow> nat option \<Rightarrow> Error + nat option" where
  "checkBuildCommand command normalizedCommand buildCommandPhases =
     (if cmd_name normalizedCommand = buildCommandName
         \<or> cmd_name normalizedCommand = rebuildCommandName
      then
        if cmd_commandKind normalizedCommand = globalCommandKind
          then Inl (BuildCommandKindGlobal (cmd_name normalizedCommand))
        else if truthy (cj_safeForSimultaneousRushProcesses command)
          then Inl (BuildCommandSafeForSimultaneous (cmd_name normalizedCommand))
        else if cmd_name normalizedCommand = buildCommandName
          then Inr (cmd_phases normalizedCommand)
        else Inr buildCommandPhases
      else Inr buildCommandPhases)"

definition processCommand :: "CommandJson \<Rightarrow> CommandLineConfiguration \<times> nat option \<Rightarrow> Error + CommandLineConfiguration \<times> nat option" where
  "processCommand command s =
     (if map_of (commands (fst s)) (cj_name command) \<noteq> None
        then Inl (CommandSpecifiedMoreThanOnce (cj_name command))
      else (case normalizeCommand command (fst s) of
              Inl e \<Rightarrow> Inl e
            | Inr (normalizedCommand, this) \<Rightarrow>
                (case checkBuildCommand command normalizedCommand (snd s) of
                   Inl e \<Rightarrow> Inl e
                 | Inr buildCommandPhases \<Rightarrow>
                     Inr (this\<lparr>commands := AList.update (cmd_name normalizedCommand)
                                              normalizedCommand (commands this)\<rparr>,
                          buildCommandPhases))))"

fun processCommands :: "CommandJson list \<Rightarrow> CommandLineConfiguration \<times> nat option \<Rightarrow> Error + CommandLineConfiguration \<times> nat option" where
  "processCommands [] s = Inr s"
| "processCommands (command # rest) s =
     (case processCommand command s of
        Inl e \<Rightarrow> Inl e
      | Inr s' \<Rightarrow> processCommands rest s')"

section \<open>The constructor: default build and rebuild commands\<close>

definition DEFAULT_BUILD_COMMAND_JSON :: CommandJson where
  "DEFAULT_BUILD_COMMAND_JSON =
     \<lparr>cj_commandKind = bulkCommandKind,
      cj_name = buildCommandName,
      cj_safeForSimultaneousRushProcesses = Some False,
      cj_phases = [],
      cj_watchOptions = None,
      cj_ignoreMissingScript = None,
      cj_allowWarningsInSuccessfulBuild = None,
      cj_ignoreDependencyOrder = None,
      cj_watchForChanges = None,
      cj_disableBuildCache = None,
      cj_incremental = Some True,
      cj_enableParallelism = Some True\<rparr>"

definition DEFAULT_REBUILD_COMMAND_JSON :: CommandJson where
  "DEFAULT_REBUILD_COMMAND_JSON =
     \<lparr>cj_commandKind = bulkCommandKind,
      cj_name = rebuildCommandName,
      cj_safeForSimultaneousRushProcesses = Some False,
      cj_phases = [],
      cj_watchOptions = None,
      cj_ignoreMissingScript = None,
      cj_allowWarningsInSuccessfulBuild = None,
      cj_ignoreDependencyOrder = None,
      cj_watchForChanges = None,
      cj_disableBuildCache = None,
      cj_incremental = Some False,
      cj_enableParallelism = Some True\<rparr>"

text \<open>
  The first half of the block: the command \<open>build\<close> of the configuration, or the translated
  default.  The result is the variable \<open>buildCommand\<close>, the configuration and the variable
  \<open>buildCommandPhases\<close>.
\<close>

definition addDefaultBuildCommand :: "CommandLineConfiguration \<times> nat option \<Rightarrow> Command \<times> CommandLineConfiguration \<times> nat option" where
  "addDefaultBuildCommand s =
     (case map_of (commands (fst s)) buildCommandName of
        Some buildCommand \<Rightarrow> (buildCommand, fst s, snd s)
      | None \<Rightarrow>
          (let translated = translateBulkCommandToPhasedCommand DEFAULT_BUILD_COMMAND_JSON (fst s);
               buildCommand = (fst translated)
                 \<lparr>cmd_disableBuildCache := cj_disableBuildCache DEFAULT_BUILD_COMMAND_JSON\<rparr>;
               this = snd translated
           in (buildCommand,
               this\<lparr>commands := AList.update (cmd_name buildCommand) buildCommand (commands this)\<rparr>,
               cmd_phases buildCommand)))"

definition defaultRebuildCommand :: "Command \<Rightarrow> nat \<Rightarrow> nat \<Rightarrow> Command" where
  "defaultRebuildCommand buildCommand buildCommandPhases watchPhases =
     \<lparr>cmd_json = DEFAULT_REBUILD_COMMAND_JSON,
      cmd_commandKind = phasedCommandKind,
      cmd_isSynthetic = True,
      cmd_associatedParameters = cmd_associatedParameters buildCommand,
      cmd_phases = Some buildCommandPhases,
      cmd_watchPhases = Some watchPhases,
      cmd_alwaysWatch = False,
      cmd_disableBuildCache = cj_disableBuildCache DEFAULT_REBUILD_COMMAND_JSON\<rparr>"

definition addDefaultRebuildCommand :: "Command \<times> CommandLineConfiguration \<times> nat option \<Rightarrow> Error + CommandLineConfiguration" where
  "addDefaultRebuildCommand b =
     (case b of (buildCommand, this, buildCommandPhases) \<Rightarrow>
        if map_of (commands this) rebuildCommandName = None then
          (case buildCommandPhases of
             None \<Rightarrow> Inl BuildPhasesNotFound
           | Some buildPhases \<Rightarrow>
               (let rebuildCommand =
                      defaultRebuildCommand buildCommand buildPhases (length (phaseSetHeap this))
                in Inr (this\<lparr>phaseSetHeap := phaseSetHeap this @ [[]],
                             commands := AList.update (cmd_name rebuildCommand) rebuildCommand
                                           (commands this)\<rparr>)))
        else Inr this)"

definition addDefaultBuildCommands :: "CommandLineConfiguration \<times> nat option \<Rightarrow> Error + CommandLineConfiguration" where
  "addDefaultBuildCommands s = addDefaultRebuildCommand (addDefaultBuildCommand s)"

section \<open>The constructor: parameters\<close>

definition normalizeParameter :: "ParameterJson \<Rightarrow> IParameterJson" where
  "normalizeParameter parameter =
     \<lparr>np_parameterKind = pr_parameterKind parameter,
      np_longName = pr_longName parameter,
      np_alternatives = pr_alternatives parameter,
      np_defaultValue = pr_defaultValue parameter,
      np_associatedCommands =
        (case pr_associatedCommands parameter of None \<Rightarrow> [] | Some cs \<Rightarrow> cs),
      np_associatedPhases =
        (case pr_associatedPhases parameter of None \<Rightarrow> [] | Some ps \<Rightarrow> ps)\<rparr>"

text \<open>The basic validation; an absent or empty default value is falsy and is not looked up.\<close>

definition validateParameterKind :: "IParameterJson \<Rightarrow> Error + unit" where
  "validateParameterKind normalizedParameter =
     (case np_parameterKind normalizedParameter of
        choiceParameter \<Rightarrow>
          (case np_defaultValue normalizedParameter of
             None \<Rightarrow> Inr ()
           | Some defaultValue \<Rightarrow>
               if defaultValue \<noteq> [] \<and> defaultValue \<notin> set (np_alternatives normalizedParameter)
                 then Inl (DefaultValueNotAnAlternative (np_longName normalizedParameter)
                             defaultValue (np_alternatives normalizedParameter))
               else Inr ())
      | _ \<Rightarrow> Inr ())"

text \<open>
  The loop over \<open>normalizedParameter.associatedCommands\<close>; \<open>p\<close> is the address of the
  normalized parameter.  The state carries the configuration and the variables
  \<open>parameterHasAssociatedCommands\<close> and \<open>parameterIsOnlyAssociatedWithPhasedCommands\<close>.
\<close>

definition pushAssociatedPhase :: "nat \<Rightarrow> string \<Rightarrow> CommandLineConfiguration \<Rightarrow> CommandLineConfiguration" where
  "pushAssociatedPhase p phaseName this =
     this\<lparr>parameters := (parameters this)
       [p := (parameters this ! p)
          \<lparr>np_associatedPhases := np_associatedPhases (parameters this ! p) @ [phaseName]\<rparr>]\<rparr>"

definition addAssociatedParameter :: "nat \<Rightarrow> Command \<Rightarrow> CommandLineConfiguration \<Rightarrow> CommandLineConfiguration" where
  "addAssociatedParameter p associatedCommand this =
     this\<lparr>parameterSetHeap := (parameterSetHeap this)
       [cmd_associatedParameters associatedCommand :=
          Set_add p (parameterSetHeap this ! cmd_associatedParameters associatedCommand)]\<rparr>"

fun associateCommands :: "nat \<Rightarrow> string list \<Rightarrow> CommandLineConfiguration \<times> bool \<times> bool \<Rightarrow> Error + CommandLineConfiguration \<times> bool \<times> bool" where
  "associateCommands p [] s = Inr s"
| "associateCommands p (associatedCommandName # rest) (this, hasCommands, onlyPhased) =
     (let this1 =
        (case map_of (syntheticPhasesByTranslatedBulkCommandName this) associatedCommandName of
           None \<Rightarrow> this
         | Some synthetic \<Rightarrow>
             pushAssociatedPhase p (nameOf (phaseHeap this) synthetic) this)
      in (case map_of (commands this1) associatedCommandName of
            None \<Rightarrow> Inl (ParameterCommandDoesNotExist (np_longName (parameters this1 ! p))
                           associatedCommandName)
          | Some associatedCommand \<Rightarrow>
              associateCommands p rest
                (addAssociatedParameter p associatedCommand this1,
                 True,
                 onlyPhased \<and> cmd_commandKind associatedCommand = phasedCommandKind)))"

text \<open>The loop over \<open>normalizedParameter.associatedPhases\<close>; the flag is
  \<open>parameterHasAssociatedPhases\<close>.\<close>

fun checkAssociatedPhases :: "(string \<times> nat) list \<Rightarrow> string \<Rightarrow> string list \<Rightarrow> bool \<Rightarrow> Error + bool" where
  "checkAssociatedPhases phs longName [] hasPhases = Inr hasPhases"
| "checkAssociatedPhases phs longName (associatedPhaseName # rest) hasPhases =
     (case map_of phs associatedPhaseName of
        None \<Rightarrow> Inl (ParameterPhaseDoesNotExist longName associatedPhaseName)
      | Some associatedPhase \<Rightarrow> checkAssociatedPhases phs longName rest True)"

text \<open>The two loops and the two final checks, for the parameter at address \<open>p\<close>.\<close>

definition associateParameter :: "nat \<Rightarrow> CommandLineConfiguration \<Rightarrow> Error + CommandLineConfiguration" where
  "associateParameter p this =
     (case associateCommands p (np_associatedCommands (parameters this ! p)) (this, False, True) of
        Inl e \<Rightarrow> Inl e
      | Inr (this1, hasCommands, onlyPhased) \<Rightarrow>
          (case checkAssociatedPhases (phases this1) (np_longName (parameters this1 ! p))
                  (np_associatedPhases (parameters this1 ! p)) False of
             Inl e \<Rightarrow> Inl e
           | Inr hasPhases \<Rightarrow>
               if \<not> hasCommands
                 then Inl (ParameterListsNoAssociatedCommands (np_longName (parameters this1 ! p)))
               else if onlyPhased \<and> \<not> hasPhases
                 then Inl (ParameterListsNoAssociatedPhases (np_longName (parameters this1 ! p)))
               else Inr this1))"

definition processParameter :: "ParameterJson \<Rightarrow> CommandLineConfiguration \<Rightarrow> Error + CommandLineConfiguration" where
  "processParameter parameter this =
     (let normalizedParameter = normalizeParameter parameter;
          p = length (parameters this);
          this1 = this\<lparr>parameters := parameters this @ [normalizedParameter]\<rparr>
      in (case validateParameterKind normalizedParameter of
            Inl e \<Rightarrow> Inl e
          | Inr u \<Rightarrow> associateParameter p this1))"

fun processParameters :: "ParameterJson list \<Rightarrow> CommandLineConfiguration \<Rightarrow> Error + CommandLineConfiguration" where
  "processParameters [] this = Inr this"
| "processParameters (parameter # rest) this =
     (case processParameter parameter this of
        Inl e \<Rightarrow> Inl e
      | Inr this' \<Rightarrow> processParameters rest this')"

section \<open>The constructor\<close>

text \<open>
  The four blocks of the constructor, each under the test of the source: \<open>if (phasesJson)\<close>,
  \<open>if (commandsJson)\<close>, \<open>if (!options.doNotIncludeDefaultBuildCommands)\<close> and
  \<open>if (parametersJson)\<close>.  The second block also yields the variable
  \<open>buildCommandPhases\<close>.
\<close>

definition phasesStage :: "ICommandLineJson option \<Rightarrow> Error + CommandLineConfiguration" where
  "phasesStage commandLineJson =
     (case Option.bind commandLineJson clj_phases of
        None \<Rightarrow> Inr emptyConfiguration
      | Some phasesJson \<Rightarrow> constructPhases phasesJson emptyConfiguration)"

definition constructCommands :: "ICommandLineJson option \<Rightarrow> CommandLineConfiguration \<Rightarrow> Error + CommandLineConfiguration \<times> nat option" where
  "constructCommands commandLineJson this =
     (case Option.bind commandLineJson clj_commands of
        None \<Rightarrow> Inr (this, None)
      | Some commandsJson \<Rightarrow> processCommands commandsJson (this, None))"

definition defaultsStage :: "ICommandLineConfigurationOptions \<Rightarrow> CommandLineConfiguration \<times> nat option \<Rightarrow> Error + CommandLineConfiguration" where
  "defaultsStage options s =
     (if \<not> truthy (doNotIncludeDefaultBuildCommands options)
        then addDefaultBuildCommands s else Inr (fst s))"

definition parametersStage :: "ICommandLineJson option \<Rightarrow> CommandLineConfiguration \<Rightarrow> Error + CommandLineConfiguration" where
  "parametersStage commandLineJson this =
     (case Option.bind commandLineJson clj_parameters of
        None \<Rightarrow> Inr this
      | Some parametersJson \<Rightarrow> processParameters parametersJson this)"

definition newCommandLineConfiguration :: "ICommandLineJson option \<Rightarrow> ICommandLineConfigurationOptions \<Rightarrow> Error + CommandLineConfiguration" where
  "newCommandLineConfiguration commandLineJson options =
     (case phasesStage commandLineJson of
        Inl e \<Rightarrow> Inl e
      | Inr this1 \<Rightarrow>
          (case constructCommands commandLineJson this1 of
             Inl e \<Rightarrow> Inl e
           | Inr s \<Rightarrow>
               (case defaultsStage options s of
                  Inl e \<Rightarrow> Inl e
                | Inr this3 \<Rightarrow> parametersStage commandLineJson this3)))"

section \<open>Loading a file\<close>

text \<open>
  Modelled from the spec: \<open>JsonFile.loadAndValidate\<close> and \<open>FileSystem.isNotExistError\<close> are
  missing.  The call of \<open>loadAndValidate\<close> either throws an error \<open>e\<close>
  (\<open>LoadThrows (isNotExistError e) e\<close>, the flag being true when the file does not exist), or
  returns the object that passed the schema (\<open>LoadReturns\<close>).
\<close>

datatype LoadOutcome = LoadThrows bool string | LoadReturns ICommandLineJson

definition tryLoadFromFile :: "LoadOutcome \<Rightarrow> Error + CommandLineConfiguration option" where
  "tryLoadFromFile outcome =
     (case outcome of
        LoadThrows isNotExistError e \<Rightarrow>
          if \<not> isNotExistError then Inl (LoadAndValidateError e) else Inr None
      | LoadReturns commandLineJson \<Rightarrow>
          (case newCommandLineConfiguration (Some commandLineJson)
                  \<lparr>doNotIncludeDefaultBuildCommands = Some True\<rparr> of
             Inl e \<Rightarrow> Inl e
           | Inr configuration \<Rightarrow> Inr (Some configuration)))"

section \<open>Async.forEachAsync\<close>

text \<open>
  The body of \<open>forEachAsync\<close> runs on one thread: a piece of code runs from a resumption to
  the next \<open>await\<close> without interruption.  The model is the state of the closure and one
  step for each resumption: an \<open>await iterator.next()\<close> that delivers a value or the end,
  a callback promise that is fulfilled or rejected, and the functions registered with
  \<open>then\<close> and \<open>catch\<close>.  The order of the steps is left open, so every interleaving of
  the event loop is a run of the model.

  The iterable yields a finite number of elements and then reports the end, and
  \<open>iterator.next()\<close> does not throw; a callback may throw, or return a promise that is
  fulfilled or rejected at any later time.  The option \<open>concurrency\<close> is a number: a finite
  number is a rational, and \<open>None\<close> is an absent option; \<open>NaN\<close> and \<open>Infinity\<close> give the
  limit \<open>Infinity\<close> as an absent option does.  The limit of the closure is \<open>None\<close> when it
  is \<open>Infinity\<close>.  The counter \<open>operationsInProgress\<close> is an integer, as it is decremented
  without a test.
\<close>

datatype CallbackStatus = Running | Fulfilled | Completed | Failed

datatype Settlement = Pending | Resolved | Rejected

record ForEachState =
  operationsInProgress :: int
  iteratorIsComplete :: bool
  promiseHasResolvedOrRejected :: bool
  remaining :: nat
  callbacks :: "CallbackStatus list"
  awaitingNext :: nat
  pendingRejections :: nat
  settlement :: Settlement

text \<open>
  \<open>remaining\<close> counts the elements the iterator has not delivered; \<open>callbacks\<close> has the
  status of the callback of each delivered element, at its \<open>arrayIndex\<close>: \<open>Running\<close> from
  the call until its promise is settled, \<open>Fulfilled\<close> until the function given to \<open>then\<close>
  has run, then \<open>Completed\<close>; \<open>Failed\<close> when it threw or its promise was rejected.
  \<open>awaitingNext\<close> counts the suspended \<open>await iterator.next()\<close>, \<open>pendingRejections\<close> the
  rejections whose \<open>catch\<close> function has not run, and \<open>settlement\<close> is the state of the
  returned promise.
\<close>

definition effectiveConcurrency :: "rat option \<Rightarrow> rat option" where
  "effectiveConcurrency concurrency =
     (case concurrency of
        None \<Rightarrow> None
      | Some c \<Rightarrow> if c > 0 then Some c else None)"

definition belowConcurrency :: "int \<Rightarrow> rat option \<Rightarrow> bool" where
  "belowConcurrency n concurrency =
     (case concurrency of None \<Rightarrow> True | Some c \<Rightarrow> of_int n < c)"

text \<open>\<open>resolve()\<close> and \<open>reject(error)\<close> settle the returned promise once.\<close>

definition settle :: "Settlement \<Rightarrow> ForEachState \<Rightarrow> ForEachState" where
  "settle s st = (if settlement st = Pending then st\<lparr>settlement := s\<rparr> else st)"

text \<open>
  \<open>queueOperationsAsync\<close> from the test of its loop to the next \<open>await iterator.next()\<close> or
  to its end, and \<open>onOperationCompletionAsync\<close>; each calls the other.
\<close>

function queueOperationsAsync :: "rat option \<Rightarrow> ForEachState \<Rightarrow> ForEachState"
  and onOperationCompletionAsync :: "rat option \<Rightarrow> ForEachState \<Rightarrow> ForEachState" where
  "queueOperationsAsync concurrency st =
     (if belowConcurrency (operationsInProgress st) concurrency
         \<and> \<not> iteratorIsComplete st \<and> \<not> promiseHasResolvedOrRejected st
        then st\<lparr>operationsInProgress := operationsInProgress st + 1,
                 awaitingNext := Suc (awaitingNext st)\<rparr>
      else if iteratorIsComplete st then onOperationCompletionAsync concurrency st
      else st)"
| "onOperationCompletionAsync concurrency st =
     (if \<not> promiseHasResolvedOrRejected st then
        if operationsInProgress st = 0 \<and> iteratorIsComplete st
          then settle Resolved (st\<lparr>promiseHasResolvedOrRejected := True\<rparr>)
        else if \<not> iteratorIsComplete st then queueOperationsAsync concurrency st
        else st
      else st)"
  by pat_completeness auto

termination
  by (relation "measure (\<lambda>x. case x of
        Inl (c, st) \<Rightarrow> if iteratorIsComplete st then 1 else 0
      | Inr (c, st) \<Rightarrow> if iteratorIsComplete st then 0 else 1)") auto

datatype Event =
    IteratorYields
  | IteratorYieldsCallbackThrows
  | IteratorDone
  | CallbackFulfils nat
  | CallbackRejects nat
  | ThenHandler nat
  | CatchHandler

text \<open>
  One resumption; \<open>None\<close> when the event cannot happen in the state.  After a value the
  loop goes on with its test; after the end the counter is decremented and the loop
  goes on with its test; the function given to \<open>then\<close> decrements the counter and calls
  \<open>onOperationCompletionAsync\<close>; the function given to \<open>catch\<close> rejects.
\<close>

definition step :: "rat option \<Rightarrow> Event \<Rightarrow> ForEachState \<Rightarrow> ForEachState option" where
  "step concurrency e st =
     (case e of
        IteratorYields \<Rightarrow>
          if awaitingNext st > 0 \<and> remaining st > 0 then
            Some (queueOperationsAsync concurrency
                    (st\<lparr>awaitingNext := awaitingNext st - 1,
                        remaining := remaining st - 1,
                        iteratorIsComplete := False,
                        callbacks := callbacks st @ [Running]\<rparr>))
          else None
      | IteratorYieldsCallbackThrows \<Rightarrow>
          if awaitingNext st > 0 \<and> remaining st > 0 then
            Some (st\<lparr>awaitingNext := awaitingNext st - 1,
                      remaining := remaining st - 1,
                      iteratorIsComplete := False,
                      callbacks := callbacks st @ [Failed],
                      pendingRejections := Suc (pendingRejections st)\<rparr>)
          else None
      | IteratorDone \<Rightarrow>
          if awaitingNext st > 0 \<and> remaining st = 0 then
            Some (queueOperationsAsync concurrency
                    (st\<lparr>awaitingNext := awaitingNext st - 1,
                        iteratorIsComplete := True,
                        operationsInProgress := operationsInProgress st - 1\<rparr>))
          else None
      | CallbackFulfils i \<Rightarrow>
          if i < length (callbacks st) \<and> callbacks st ! i = Running
            then Some (st\<lparr>callbacks := (callbacks st)[i := Fulfilled]\<rparr>)
          else None
      | CallbackRejects i \<Rightarrow>
          if i < length (callbacks st) \<and> callbacks st ! i = Running
            then Some (st\<lparr>callbacks := (callbacks st)[i := Failed],
                           pendingRejections := Suc (pendingRejections st)\<rparr>)
          else None
      | ThenHandler i \<Rightarrow>
          if i < length (callbacks st) \<and> callbacks st ! i = Fulfilled
            then Some (onOperationCompletionAsync concurrency
                         (st\<lparr>callbacks := (callbacks st)[i := Completed],
                             operationsInProgress := operationsInProgress st - 1\<rparr>))
          else None
      | CatchHandler \<Rightarrow>
          if pendingRejections st > 0
            then Some (settle Rejected
                         (st\<lparr>pendingRejections := pendingRejections st - 1,
                             promiseHasResolvedOrRejected := True\<rparr>))
          else None)"

fun execute :: "rat option \<Rightarrow> Event list \<Rightarrow> ForEachState \<Rightarrow> ForEachState option" where
  "execute concurrency [] st = Some st"
| "execute concurrency (e # es) st =
     (case step concurrency e st of
        None \<Rightarrow> None
      | Some st' \<Rightarrow> execute concurrency es st')"

text \<open>The call: the closure is set up and \<open>queueOperationsAsync()\<close> runs to its first \<open>await\<close>.\<close>

definition forEachAsync :: "nat \<Rightarrow> rat option \<Rightarrow> Event list \<Rightarrow> ForEachState option" where
  "forEachAsync elements concurrency events =
     execute (effectiveConcurrency concurrency) events
       (queueOperationsAsync (effectiveConcurrency concurrency)
          \<lparr>operationsInProgress = 0, iteratorIsComplete = False,
           promiseHasResolvedOrRejected = False, remaining = elements, callbacks = [],
           awaitingNext = 0, pendingRejections = 0, settlement = Pending\<rparr>)"


section \<open>Translation of bulk commands\<close>

text \<open>
  C3: a bulk command is normalized to a phased command whose set \<open>phases\<close> holds exactly
  one phase, the fresh synthetic phase that carries the name of the command and is entered
  in the registry under that name; the upstream dependencies of that phase contain the
  phase itself if and only if \<open>ignoreDependencyOrder\<close> is not set to true.
\<close>

theorem bulk_command_translation:
  assumes "cj_commandKind command = bulkCommandKind"
  shows "\<exists>translated this'.
      normalizeCommand command this = Inr (translated, this')
    \<and> cmd_commandKind translated = phasedCommandKind
    \<and> cmd_name translated = cj_name command
    \<and> cmd_isSynthetic translated
    \<and> cmd_phases translated = Some (length (phaseSetHeap this))
    \<and> phaseSetHeap this' ! length (phaseSetHeap this) = [length (phaseHeap this)]
    \<and> map_of (phases this') (cj_name command) = Some (length (phaseHeap this))
    \<and> ph_name (phaseHeap this' ! length (phaseHeap this)) = cj_name command
    \<and> ph_isSynthetic (phaseHeap this' ! length (phaseHeap this))
    \<and> (length (phaseHeap this) \<in> set (upstreamOf (phaseHeap this') (length (phaseHeap this)))
         \<longleftrightarrow> cj_ignoreDependencyOrder command \<noteq> Some True)"
  using assms
  by (simp add: normalizeCommand_def translateBulkCommandToPhasedCommand_def Let_def
      cmd_name_def syntheticPhase_def upstreamOf_def truthy_def nth_append AList.update_conv')

theorem bulk_command_translation_witness:
  "cj_commandKind DEFAULT_BUILD_COMMAND_JSON = bulkCommandKind
   \<and> (\<exists>translated this'.
      normalizeCommand DEFAULT_BUILD_COMMAND_JSON emptyConfiguration = Inr (translated, this')
    \<and> cmd_commandKind translated = phasedCommandKind
    \<and> cmd_name translated = ''build''
    \<and> cmd_phases translated = Some 0
    \<and> phaseSetHeap this' ! 0 = [0]
    \<and> ph_name (phaseHeap this' ! 0) = ''build''
    \<and> 0 \<in> set (upstreamOf (phaseHeap this') 0))"
proof -
  have k: "cj_commandKind DEFAULT_BUILD_COMMAND_JSON = bulkCommandKind"
    by (simp add: DEFAULT_BUILD_COMMAND_JSON_def)
  from bulk_command_translation [OF k, of emptyConfiguration] k show ?thesis
    by (auto simp: DEFAULT_BUILD_COMMAND_JSON_def emptyConfiguration_def buildCommandName_def)
qed

section \<open>Cycles of self dependencies\<close>

text \<open>The graph of the self dependencies, on the addresses of the phase store.\<close>

definition selfEdges :: "IPhase list \<Rightarrow> (nat \<times> nat) set" where
  "selfEdges heap = {(a, b). b \<in> set (selfOf heap a)}"

definition closedUnderSelf :: "IPhase list \<Rightarrow> nat set \<Rightarrow> bool" where
  "closedUnderSelf heap S = (\<forall>s\<in>S. set (selfOf heap s) \<subseteq> S)"

text \<open>
  The invariant of \<open>cycleFreePhases\<close>: the set is closed under self dependencies and none
  of its members lies on a cycle.
\<close>

definition cycleFree :: "IPhase list \<Rightarrow> nat set \<Rightarrow> bool" where
  "cycleFree heap S = (closedUnderSelf heap S \<and> (\<forall>s\<in>S. (s, s) \<notin> (selfEdges heap)\<^sup>+))"

lemma closed_reach:
  "(a, b) \<in> (selfEdges heap)\<^sup>* \<Longrightarrow> closedUnderSelf heap S \<Longrightarrow> a \<in> S \<Longrightarrow> b \<in> S"
  by (induction rule: rtrancl_induct) (auto simp: selfEdges_def closedUnderSelf_def)

lemma cycleFree_insert:
  assumes inv: "cycleFree heap S" and deps: "set (selfOf heap p) \<subseteq> S"
  shows "cycleFree heap (insert p S)"
proof -
  have closed: "closedUnderSelf heap (insert p S)"
    using inv deps by (auto simp: cycleFree_def closedUnderSelf_def)
  have "(p, p) \<notin> (selfEdges heap)\<^sup>+"
  proof
    assume "(p, p) \<in> (selfEdges heap)\<^sup>+"
    then obtain d where d: "(p, d) \<in> selfEdges heap" "(d, p) \<in> (selfEdges heap)\<^sup>*"
      by (auto dest: tranclD)
    from d(1) deps have "d \<in> S" by (auto simp: selfEdges_def)
    with d(2) inv have "p \<in> S" by (auto simp: cycleFree_def dest: closed_reach)
    with inv \<open>(p, p) \<in> (selfEdges heap)\<^sup>+\<close> show False by (auto simp: cycleFree_def)
  qed
  with inv closed show ?thesis by (auto simp: cycleFree_def)
qed

lemma set_Set_add [simp]: "set (Set_add x s) = insert x (set s)"
  by (auto simp: Set_add_def)

lemma check_Inr:
  "checkForPhaseSelfCycles heap phase path safe = Inr safe' \<Longrightarrow> cycleFree heap (set safe)
     \<Longrightarrow> cycleFree heap (set safe') \<and> set safe \<subseteq> set safe' \<and> phase \<in> set safe'"
  "checkSelfDependencies heap deps path safe = Inr safe' \<Longrightarrow> cycleFree heap (set safe)
     \<Longrightarrow> cycleFree heap (set safe') \<and> set safe \<subseteq> set safe' \<and> set deps \<subseteq> set safe'"
proof (induction heap phase path safe and heap deps path safe arbitrary: safe' and safe'
    rule: checkForPhaseSelfCycles_checkSelfDependencies.induct)
  case (1 heap phase phasesInPath cycleFreePhases)
  show ?case
  proof (cases "phase \<in> set cycleFreePhases")
    case True
    with 1 show ?thesis by auto
  next
    case False
    with "1.prems" obtain s where s: "checkSelfDependencies heap (selfOf heap phase) phasesInPath cycleFreePhases = Inr s"
      and safe': "safe' = Set_add phase s"
      by (auto split: sum.splits)
    from "1.IH" [OF False s "1.prems"(2)]
    have ih: "cycleFree heap (set s)" "set cycleFreePhases \<subseteq> set s" "set (selfOf heap phase) \<subseteq> set s"
      by auto
    from cycleFree_insert [OF ih(1) ih(3)] ih(2) safe' show ?thesis by auto
  qed
next
  case (2 heap phasesInPath cycleFreePhases)
  then show ?case by simp
next
  case (3 heap dependency rest phasesInPath cycleFreePhases)
  from "3.prems" have notin: "dependency \<notin> set phasesInPath"
    by (auto split: if_splits)
  with "3.prems" obtain s where s: "checkForPhaseSelfCycles heap dependency (phasesInPath @ [dependency]) cycleFreePhases = Inr s"
    and r: "checkSelfDependencies heap rest phasesInPath s = Inr safe'"
    by (auto split: sum.splits)
  from "3.IH"(1) [OF notin s "3.prems"(2)]
  have ih1: "cycleFree heap (set s)" "set cycleFreePhases \<subseteq> set s" "dependency \<in> set s"
    by auto
  from "3.IH"(2) [OF notin s r ih1(1)] ih1 show ?case by auto
qed

text \<open>
  A path of self dependencies, and what the thrown error reports: the phases in
  \<open>phasesInPath\<close>, in the order of the traversal from \<open>start\<close>, and the dependency that closes
  the cycle.
\<close>

definition isSelfPath :: "IPhase list \<Rightarrow> nat list \<Rightarrow> bool" where
  "isSelfPath heap path = successively (\<lambda>a b. b \<in> set (selfOf heap a)) path"

definition reportsCycleFrom :: "IPhase list \<Rightarrow> nat \<Rightarrow> Error \<Rightarrow> bool" where
  "reportsCycleFrom heap start e =
     (\<exists>dependency path.
        e = SelfCycle (nameOf heap dependency) (map (nameOf heap) path)
      \<and> distinct path \<and> isSelfPath heap (start # path)
      \<and> dependency \<in> set path \<and> dependency \<in> set (selfOf heap (last path)))"

lemma isSelfPath_snoc:
  "isSelfPath heap (start # path) \<Longrightarrow> d \<in> set (selfOf heap (last (start # path)))
     \<Longrightarrow> isSelfPath heap (start # path @ [d])"
  unfolding isSelfPath_def
  using successively_append_iff [of "\<lambda>a b. b \<in> set (selfOf heap a)" "start # path" "[d]"]
  by simp

lemma check_Inl:
  "checkForPhaseSelfCycles heap phase path safe = Inl e \<Longrightarrow> distinct path
     \<Longrightarrow> isSelfPath heap (start # path) \<Longrightarrow> last (start # path) = phase
     \<Longrightarrow> reportsCycleFrom heap start e"
  "checkSelfDependencies heap deps path safe = Inl e \<Longrightarrow> distinct path
     \<Longrightarrow> isSelfPath heap (start # path) \<Longrightarrow> set deps \<subseteq> set (selfOf heap (last (start # path)))
     \<Longrightarrow> reportsCycleFrom heap start e"
proof (induction heap phase path safe and heap deps path safe
    rule: checkForPhaseSelfCycles_checkSelfDependencies.induct)
  case (1 heap phase phasesInPath cycleFreePhases)
  from "1.prems"(1) have notin: "phase \<notin> set cycleFreePhases"
    and e: "checkSelfDependencies heap (selfOf heap phase) phasesInPath cycleFreePhases = Inl e"
    by (auto split: if_splits sum.splits)
  from "1.IH" [OF notin e "1.prems"(2,3)] "1.prems"(4) show ?case by simp
next
  case (2 heap phasesInPath cycleFreePhases)
  then show ?case by simp
next
  case (3 heap dependency rest phasesInPath cycleFreePhases)
  show ?case
  proof (cases "dependency \<in> set phasesInPath")
    case True
    with "3.prems" have e: "e = SelfCycle (nameOf heap dependency) (map (nameOf heap) phasesInPath)"
      by simp
    from True have ne: "phasesInPath \<noteq> []" by auto
    with "3.prems"(4) have "dependency \<in> set (selfOf heap (last phasesInPath))" by simp
    with e True "3.prems"(2,3) show ?thesis
      unfolding reportsCycleFrom_def by blast
  next
    case False
    have dep: "dependency \<in> set (selfOf heap (last (start # phasesInPath)))"
      using "3.prems"(4) by simp
    have d': "distinct (phasesInPath @ [dependency])"
      using False "3.prems"(2) by simp
    have p': "isSelfPath heap (start # phasesInPath @ [dependency])"
      using "3.prems"(3) dep by (rule isSelfPath_snoc)
    have l': "last (start # phasesInPath @ [dependency]) = dependency"
      by simp
    show ?thesis
    proof (cases "checkForPhaseSelfCycles heap dependency (phasesInPath @ [dependency]) cycleFreePhases")
      case (Inl e')
      with False "3.prems"(1) have "e' = e" by simp
      with "3.IH"(1) [OF False _ d' p' l'] Inl show ?thesis by simp
    next
      case (Inr s)
      with False "3.prems"(1) have r: "checkSelfDependencies heap rest phasesInPath s = Inl e"
        by simp
      from "3.IH"(2) [OF False Inr r "3.prems"(2,3)] "3.prems"(4) show ?thesis by simp
    qed
  qed
qed

lemma isSelfPath_reach:
  "isSelfPath heap path \<Longrightarrow> a \<in> set path \<Longrightarrow> (a, last path) \<in> (selfEdges heap)\<^sup>*"
proof (induction path arbitrary: a)
  case Nil
  then show ?case by simp
next
  case (Cons x xs)
  show ?case
  proof (cases xs)
    case Nil
    with Cons.prems show ?thesis by simp
  next
    case (Cons y ys)
    with Cons.prems(1) have xy: "(x, y) \<in> selfEdges heap" and p: "isSelfPath heap xs"
      by (simp_all add: isSelfPath_def selfEdges_def)
    have yl: "(y, last xs) \<in> (selfEdges heap)\<^sup>*"
      using Cons.IH [OF p, of y] Cons by simp
    show ?thesis
    proof (cases "a = x")
      case True
      with xy yl Cons show ?thesis by (auto intro: converse_rtrancl_into_rtrancl)
    next
      case False
      with Cons.prems(2) have "a \<in> set xs" by simp
      from Cons.IH [OF p this] Cons show ?thesis by simp
    qed
  qed
qed

lemma isSelfPath_tl: "isSelfPath heap (x # xs) \<Longrightarrow> isSelfPath heap xs"
  by (cases xs) (simp_all add: isSelfPath_def)

lemma reportsCycleFrom_cycle:
  assumes "reportsCycleFrom heap start e"
  shows "\<exists>q. (start, q) \<in> (selfEdges heap)\<^sup>* \<and> (q, q) \<in> (selfEdges heap)\<^sup>+"
proof -
  from assms obtain d path where p: "isSelfPath heap (start # path)" "d \<in> set path"
      "d \<in> set (selfOf heap (last path))"
    unfolding reportsCycleFrom_def by blast
  from p(2) have ne: "path \<noteq> []" by auto
  have "(d, last path) \<in> (selfEdges heap)\<^sup>*"
    using isSelfPath_reach [OF isSelfPath_tl [OF p(1)] p(2)] .
  moreover have "(last path, d) \<in> selfEdges heap"
    using p(3) by (simp add: selfEdges_def)
  ultimately have "(d, d) \<in> (selfEdges heap)\<^sup>+" by (rule rtrancl_into_trancl1)
  moreover have "(start, d) \<in> (selfEdges heap)\<^sup>*"
  proof -
    have "(start, last (start # path)) \<in> (selfEdges heap)\<^sup>*"
      using isSelfPath_reach [OF p(1), of start] by simp
    with ne have "(start, last path) \<in> (selfEdges heap)\<^sup>*" by simp
    with \<open>(last path, d) \<in> selfEdges heap\<close> show ?thesis
      by (auto intro: rtrancl_into_rtrancl)
  qed
  ultimately show ?thesis by blast
qed

text \<open>Some phase that the check starts from reaches a cycle of self dependencies.\<close>

definition hasSelfCycle :: "IPhase list \<Rightarrow> nat list \<Rightarrow> bool" where
  "hasSelfCycle heap ps =
     (\<exists>p\<in>set ps. \<exists>q. (p, q) \<in> (selfEdges heap)\<^sup>* \<and> (q, q) \<in> (selfEdges heap)\<^sup>+)"

lemma checkAll_Inr:
  "checkAllPhasesForSelfCycles heap ps safe = Inr safe' \<Longrightarrow> cycleFree heap (set safe)
     \<Longrightarrow> cycleFree heap (set safe') \<and> set safe \<subseteq> set safe' \<and> set ps \<subseteq> set safe'"
proof (induction ps arbitrary: safe)
  case Nil
  then show ?case by simp
next
  case (Cons p ps)
  from Cons.prems(1) obtain s where s: "checkForPhaseSelfCycles heap p [] safe = Inr s"
    and r: "checkAllPhasesForSelfCycles heap ps s = Inr safe'"
    by (auto split: sum.splits)
  from check_Inr(1) [OF s Cons.prems(2)]
  have ih: "cycleFree heap (set s)" "set safe \<subseteq> set s" "p \<in> set s" by auto
  from Cons.IH [OF r ih(1)] ih show ?case by auto
qed

lemma checkAll_Inl:
  "checkAllPhasesForSelfCycles heap ps safe = Inl e
     \<Longrightarrow> \<exists>start\<in>set ps. reportsCycleFrom heap start e"
proof (induction ps arbitrary: safe)
  case Nil
  then show ?case by simp
next
  case (Cons p ps)
  show ?case
  proof (cases "checkForPhaseSelfCycles heap p [] safe")
    case (Inl e')
    with Cons.prems have "e' = e" by simp
    with Inl have "reportsCycleFrom heap p e"
      using check_Inl(1) [of heap p "[]" safe e p] by (simp add: isSelfPath_def)
    then show ?thesis by auto
  next
    case (Inr s)
    with Cons.prems have "checkAllPhasesForSelfCycles heap ps s = Inl e" by simp
    from Cons.IH [OF this] show ?thesis by auto
  qed
qed

lemma checkAll_cases:
  "(\<not> hasSelfCycle heap ps \<and> (\<exists>safe. checkAllPhasesForSelfCycles heap ps [] = Inr safe))
   \<or> (hasSelfCycle heap ps \<and>
       (\<exists>e. checkAllPhasesForSelfCycles heap ps [] = Inl e
            \<and> (\<exists>start\<in>set ps. reportsCycleFrom heap start e)))"
proof (cases "checkAllPhasesForSelfCycles heap ps []")
  case (Inl e)
  from checkAll_Inl [OF Inl] obtain start where st: "start \<in> set ps" "reportsCycleFrom heap start e"
    by blast
  from reportsCycleFrom_cycle [OF st(2)] st(1) have "hasSelfCycle heap ps"
    unfolding hasSelfCycle_def by blast
  with Inl st show ?thesis by blast
next
  case (Inr safe)
  have "cycleFree heap (set [])"
    by (simp add: cycleFree_def closedUnderSelf_def)
  from checkAll_Inr [OF Inr this] have cf: "cycleFree heap (set safe)" and sub: "set ps \<subseteq> set safe"
    by auto
  have "\<not> hasSelfCycle heap ps"
  proof
    assume "hasSelfCycle heap ps"
    then obtain p q where pq: "p \<in> set ps" "(p, q) \<in> (selfEdges heap)\<^sup>*" "(q, q) \<in> (selfEdges heap)\<^sup>+"
      unfolding hasSelfCycle_def by blast
    from pq(1) sub have "p \<in> set safe" by auto
    with pq(2) cf have "q \<in> set safe" by (auto simp: cycleFree_def dest: closed_reach)
    with cf pq(3) show False by (auto simp: cycleFree_def)
  qed
  with Inr show ?thesis by blast
qed

lemma reportsCycleFrom_suffix:
  assumes "reportsCycleFrom heap start e"
  shows "\<exists>dependency path lead cycle.
      e = SelfCycle (nameOf heap dependency) (map (nameOf heap) path)
    \<and> distinct path \<and> isSelfPath heap (start # path)
    \<and> path = lead @ dependency # cycle
    \<and> isSelfPath heap (dependency # cycle @ [dependency])"
proof -
  from assms obtain d path where p: "e = SelfCycle (nameOf heap d) (map (nameOf heap) path)"
      "distinct path" "isSelfPath heap (start # path)" "d \<in> set path"
      "d \<in> set (selfOf heap (last path))"
    unfolding reportsCycleFrom_def by blast
  from p(4) obtain lead cycle where sp: "path = lead @ d # cycle"
    by (auto dest: split_list)
  from p(3) have "isSelfPath heap path" by (rule isSelfPath_tl)
  with sp have c: "isSelfPath heap (d # cycle)"
    by (simp add: isSelfPath_def successively_append_iff)
  from p(5) sp have "d \<in> set (selfOf heap (last (d # cycle)))" by simp
  with c have "isSelfPath heap ((d # cycle) @ [d])"
    unfolding isSelfPath_def
    using successively_append_iff [of "\<lambda>a b. b \<in> set (selfOf heap a)" "d # cycle" "[d]"]
    by simp
  then have "isSelfPath heap (d # cycle @ [d])" by simp
  with p(1,2,3) sp show ?thesis by blast
qed

definition phaseJson :: "string \<Rightarrow> string list \<Rightarrow> IPhaseJson" where
  "phaseJson n selfDependencies =
     \<lparr>pj_name = n, pj_self = Some selfDependencies, pj_upstream = None,
      pj_ignoreMissingScript = None, pj_allowWarningsOnSuccess = None\<rparr>"

definition cyclicPhasesJson :: "IPhaseJson list" where
  "cyclicPhasesJson =
     [phaseJson ''_phase:a'' [''_phase:b''], phaseJson ''_phase:b'' [''_phase:c''],
      phaseJson ''_phase:c'' [''_phase:d''], phaseJson ''_phase:d'' [''_phase:c'']]"

text \<open>
  C1: once the phases are registered and their dependencies resolved, the construction of
  the phases succeeds when no registered phase reaches a cycle of self dependencies.
  Otherwise it throws the cycle error: the error lists the names of the phases on the
  path of the traversal, in order, from a dependency of the phase the traversal started
  from down to the phase whose dependency closes the cycle; the tail of that list from
  the named dependency on is a cycle, so both phases of the closing edge are listed.
\<close>

theorem phase_self_cycle_check:
  assumes "registerPhases phasesJson this = Inr this1"
    and "resolvePhaseDependencies phasesJson this1 = Inr this2"
  shows "(\<not> hasSelfCycle (phaseHeap this2) (map snd (phases this2))
            \<longrightarrow> constructPhases phasesJson this = Inr this2)
       \<and> (hasSelfCycle (phaseHeap this2) (map snd (phases this2))
            \<longrightarrow> (\<exists>start dependency path lead cycle.
                   constructPhases phasesJson this
                     = Inl (SelfCycle (nameOf (phaseHeap this2) dependency)
                              (map (nameOf (phaseHeap this2)) path))
                 \<and> start \<in> set (map snd (phases this2))
                 \<and> distinct path \<and> isSelfPath (phaseHeap this2) (start # path)
                 \<and> path = lead @ dependency # cycle
                 \<and> isSelfPath (phaseHeap this2) (dependency # cycle @ [dependency])))"
proof -
  let ?heap = "phaseHeap this2" and ?ps = "map snd (phases this2)"
  have c: "constructPhases phasesJson this =
      (case checkAllPhasesForSelfCycles ?heap ?ps [] of Inl e \<Rightarrow> Inl e | Inr s \<Rightarrow> Inr this2)"
    using assms by (simp add: constructPhases_def)
  from checkAll_cases [of ?heap ?ps] show ?thesis
  proof
    assume "\<not> hasSelfCycle ?heap ?ps \<and> (\<exists>safe. checkAllPhasesForSelfCycles ?heap ?ps [] = Inr safe)"
    with c show ?thesis by auto
  next
    assume a: "hasSelfCycle ?heap ?ps \<and>
       (\<exists>e. checkAllPhasesForSelfCycles ?heap ?ps [] = Inl e
            \<and> (\<exists>start\<in>set ?ps. reportsCycleFrom ?heap start e))"
    then obtain e start where e: "checkAllPhasesForSelfCycles ?heap ?ps [] = Inl e"
      and st: "start \<in> set ?ps" "reportsCycleFrom ?heap start e"
      by blast
    from reportsCycleFrom_suffix [OF st(2)] obtain dependency path lead cycle where
      r: "e = SelfCycle (nameOf ?heap dependency) (map (nameOf ?heap) path)"
      "distinct path" "isSelfPath ?heap (start # path)" "path = lead @ dependency # cycle"
      "isSelfPath ?heap (dependency # cycle @ [dependency])"
      by blast
    from c e r(1) have "constructPhases phasesJson this
        = Inl (SelfCycle (nameOf ?heap dependency) (map (nameOf ?heap) path))"
      by simp
    with st(1) r(2-5) have "\<exists>start dependency path lead cycle.
        constructPhases phasesJson this
          = Inl (SelfCycle (nameOf ?heap dependency) (map (nameOf ?heap) path))
      \<and> start \<in> set ?ps
      \<and> distinct path \<and> isSelfPath ?heap (start # path)
      \<and> path = lead @ dependency # cycle
      \<and> isSelfPath ?heap (dependency # cycle @ [dependency])"
      by blast
    with a show ?thesis by blast
  qed
qed

theorem phase_self_cycle_check_witness:
  "\<exists>this1 this2.
      registerPhases cyclicPhasesJson emptyConfiguration = Inr this1
    \<and> resolvePhaseDependencies cyclicPhasesJson this1 = Inr this2
    \<and> hasSelfCycle (phaseHeap this2) (map snd (phases this2))
    \<and> constructPhases cyclicPhasesJson emptyConfiguration
        = Inl (SelfCycle ''_phase:c'' [''_phase:b'', ''_phase:c'', ''_phase:d''])"
proof -
  let ?r1 = "registerPhases cyclicPhasesJson emptyConfiguration"
  let ?r2 = "resolvePhaseDependencies cyclicPhasesJson (projr ?r1)"
  have "\<not> isl ?r1" by code_simp
  then have r1: "?r1 = Inr (projr ?r1)" by (cases ?r1) simp_all
  have "\<not> isl ?r2" by code_simp
  then have r2: "?r2 = Inr (projr ?r2)" by (cases ?r2) simp_all
  have c: "constructPhases cyclicPhasesJson emptyConfiguration
        = Inl (SelfCycle ''_phase:c'' [''_phase:b'', ''_phase:c'', ''_phase:d''])"
    by code_simp
  from phase_self_cycle_check [OF r1 r2] c
  have "hasSelfCycle (phaseHeap (projr ?r2)) (map snd (phases (projr ?r2)))"
    by auto
  with r1 r2 c show ?thesis by blast
qed

section \<open>Expansion of the phases of a command\<close>

text \<open>The self and upstream dependencies of a phase, and sets closed under them.\<close>

definition dependenciesOf :: "IPhase list \<Rightarrow> nat \<Rightarrow> nat set" where
  "dependenciesOf heap a = set (selfOf heap a) \<union> set (upstreamOf heap a)"

definition closedUnderDependencies :: "IPhase list \<Rightarrow> nat set \<Rightarrow> bool" where
  "closedUnderDependencies heap S = (\<forall>p\<in>S. dependenciesOf heap p \<subseteq> S)"

lemma set_Set_addAll [simp]: "set (Set_addAll xs s) = set xs \<union> set s"
  by (induction xs arbitrary: s) (auto simp: Set_addAll_def)

lemma Set_addAll_prefix: "\<exists>t. Set_addAll xs s = s @ t"
proof (induction xs arbitrary: s)
  case Nil
  then show ?case by (simp add: Set_addAll_def)
next
  case (Cons x xs)
  from Cons.IH [of "Set_add x s"] obtain t where "Set_addAll xs (Set_add x s) = Set_add x s @ t"
    by blast
  then show ?case by (auto simp: Set_addAll_def Set_add_def)
qed

lemma Set_addAll_nth: "j < length s \<Longrightarrow> Set_addAll xs s ! j = s ! j"
  using Set_addAll_prefix [of xs s] by (auto simp: nth_append)

lemma expandPhases_closed:
  "(\<forall>j<i. j < length s \<longrightarrow> dependenciesOf heap (s ! j) \<subseteq> set s)
     \<Longrightarrow> closedUnderDependencies heap (set (expandPhases heap i s))
         \<and> set s \<subseteq> set (expandPhases heap i s)"
proof (induction heap i s rule: expandPhases.induct)
  case (1 heap i s)
  show ?case
  proof (cases "i < length s")
    case False
    have "closedUnderDependencies heap (set s)"
      unfolding closedUnderDependencies_def
    proof
      fix p assume "p \<in> set s"
      then obtain j where j: "j < length s" "s ! j = p" by (auto simp: in_set_conv_nth)
      from False j(1) have "j < i" by simp
      with "1.prems" j show "dependenciesOf heap p \<subseteq> set s" by blast
    qed
    with False show ?thesis by simp
  next
    case True
    let ?s1 = "Set_addAll (selfOf heap (s ! i)) s"
    let ?s2 = "Set_addAll (upstreamOf heap (s ! i)) ?s1"
    have sub: "set s \<subseteq> set ?s2" by auto
    have nth: "\<And>j. j < length s \<Longrightarrow> ?s2 ! j = s ! j"
    proof -
      fix j assume j: "j < length s"
      obtain t where "?s1 = s @ t" using Set_addAll_prefix by blast
      with j have "j < length ?s1" by simp
      then have "?s2 ! j = ?s1 ! j" by (rule Set_addAll_nth)
      also have "\<dots> = s ! j" using j by (rule Set_addAll_nth)
      finally show "?s2 ! j = s ! j" .
    qed
    have pre: "\<forall>j<Suc i. j < length ?s2 \<longrightarrow> dependenciesOf heap (?s2 ! j) \<subseteq> set ?s2"
    proof (intro allI impI)
      fix j assume j: "j < Suc i" "j < length ?s2"
      with True have jl: "j < length s" by simp
      show "dependenciesOf heap (?s2 ! j) \<subseteq> set ?s2"
      proof (cases "j = i")
        case True
        with nth [OF jl] show ?thesis by (auto simp: dependenciesOf_def)
      next
        case False
        with j have "j < i" by simp
        with "1.prems" jl have "dependenciesOf heap (s ! j) \<subseteq> set s" by simp
        with nth [OF jl] sub show ?thesis by auto
      qed
    qed
    from "1.IH" [OF True pre] sub True show ?thesis by auto
  qed
qed

section \<open>Invariants of the construction\<close>

text \<open>
  What the constructor keeps true of the stores: every dependency of a stored phase is an
  address of the store; every entry of the registry points to a stored phase of that name,
  which matches the pattern unless it is synthetic; the set \<open>phases\<close> of every phased command
  is allocated, holds addresses of stored phases, is closed under dependencies and, for a
  command that was declared as phased, holds a phase for each declared name.
\<close>

definition validHeap :: "IPhase list \<Rightarrow> bool" where
  "validHeap heap = (\<forall>a<length heap. dependenciesOf heap a \<subseteq> {..<length heap})"

definition registryOk :: "IPhase list \<Rightarrow> (string \<times> nat) list \<Rightarrow> bool" where
  "registryOk heap phs =
     (distinct (map fst phs) \<and>
      (\<forall>(k, a)\<in>set phs. a < length heap \<and> ph_name (heap ! a) = k
         \<and> (\<not> ph_isSynthetic (heap ! a) \<longrightarrow> matchesPhaseNameRegexp phaseNamePrefix k)))"

definition phaseSetOk :: "IPhase list \<Rightarrow> nat list list \<Rightarrow> nat \<Rightarrow> bool" where
  "phaseSetOk heap sets s =
     (s < length sets \<and> set (sets ! s) \<subseteq> {..<length heap}
      \<and> closedUnderDependencies heap (set (sets ! s)))"

definition commandOk :: "IPhase list \<Rightarrow> nat list list \<Rightarrow> Command \<Rightarrow> bool" where
  "commandOk heap sets c =
     ((cmd_commandKind c = phasedCommandKind \<longrightarrow>
        (\<exists>s. cmd_phases c = Some s \<and> phaseSetOk heap sets s
           \<and> (\<not> cmd_isSynthetic c \<longrightarrow>
                (\<forall>n\<in>set (cj_phases (cmd_json c)). \<exists>a\<in>set (sets ! s). nameOf heap a = n))))
      \<and> (cmd_commandKind c \<noteq> phasedCommandKind \<longrightarrow> cmd_phases c = None))"

definition commandsOk :: "IPhase list \<Rightarrow> nat list list \<Rightarrow> (string \<times> Command) list \<Rightarrow> bool" where
  "commandsOk heap sets cmds = (\<forall>(k, c)\<in>set cmds. cmd_name c = k \<and> commandOk heap sets c)"

definition wellFormed :: "CommandLineConfiguration \<Rightarrow> bool" where
  "wellFormed this =
     (validHeap (phaseHeap this) \<and> registryOk (phaseHeap this) (phases this)
      \<and> commandsOk (phaseHeap this) (phaseSetHeap this) (commands this))"

lemma dependenciesOf_append:
  "a < length heap \<Longrightarrow> dependenciesOf (heap @ extra) a = dependenciesOf heap a"
  by (simp add: dependenciesOf_def selfOf_def upstreamOf_def nth_append)

lemma nameOf_append: "a < length heap \<Longrightarrow> nameOf (heap @ extra) a = nameOf heap a"
  by (simp add: nameOf_def nth_append)

lemma phaseSetOk_append:
  assumes "phaseSetOk heap sets s"
  shows "phaseSetOk (heap @ moreHeap) (sets @ moreSets) s"
proof -
  from assms have s: "s < length sets" and sub: "set (sets ! s) \<subseteq> {..<length heap}"
    and cl: "closedUnderDependencies heap (set (sets ! s))"
    by (auto simp: phaseSetOk_def)
  have "closedUnderDependencies (heap @ moreHeap) (set (sets ! s))"
    unfolding closedUnderDependencies_def
  proof
    fix p assume p: "p \<in> set (sets ! s)"
    with sub have "p < length heap" by auto
    then have "dependenciesOf (heap @ moreHeap) p = dependenciesOf heap p"
      by (rule dependenciesOf_append)
    with cl p show "dependenciesOf (heap @ moreHeap) p \<subseteq> set (sets ! s)"
      by (auto simp: closedUnderDependencies_def)
  qed
  with s sub show ?thesis by (auto simp: phaseSetOk_def nth_append)
qed

lemma commandOk_append:
  assumes "commandOk heap sets c"
  shows "commandOk (heap @ moreHeap) (sets @ moreSets) c"
proof (cases "cmd_commandKind c = phasedCommandKind")
  case False
  with assms show ?thesis by (simp add: commandOk_def)
next
  case True
  with assms obtain s where s: "cmd_phases c = Some s" "phaseSetOk heap sets s"
    and n: "\<not> cmd_isSynthetic c \<longrightarrow>
         (\<forall>n\<in>set (cj_phases (cmd_json c)). \<exists>a\<in>set (sets ! s). nameOf heap a = n)"
    by (auto simp: commandOk_def)
  from s(2) have sl: "s < length sets" and sub: "set (sets ! s) \<subseteq> {..<length heap}"
    by (auto simp: phaseSetOk_def)
  have "\<not> cmd_isSynthetic c \<longrightarrow>
     (\<forall>n\<in>set (cj_phases (cmd_json c)). \<exists>a\<in>set ((sets @ moreSets) ! s). nameOf (heap @ moreHeap) a = n)"
  proof (intro impI ballI)
    fix n assume "\<not> cmd_isSynthetic c" "n \<in> set (cj_phases (cmd_json c))"
    with n obtain a where a: "a \<in> set (sets ! s)" "nameOf heap a = n" by blast
    with sub have "a < length heap" by auto
    then have "nameOf (heap @ moreHeap) a = nameOf heap a" by (rule nameOf_append)
    with a sl show "\<exists>a\<in>set ((sets @ moreSets) ! s). nameOf (heap @ moreHeap) a = n"
      by (auto simp: nth_append)
  qed
  with s(1) phaseSetOk_append [OF s(2)] True show ?thesis
    unfolding commandOk_def by blast
qed

lemma commandsOk_append:
  "commandsOk heap sets cmds \<Longrightarrow> commandsOk (heap @ moreHeap) (sets @ moreSets) cmds"
  unfolding commandsOk_def by (auto intro: commandOk_append)

lemma validHeap_append:
  assumes "validHeap heap"
    and "\<forall>i<length extra. set (ph_self (extra ! i)) \<union> set (ph_upstream (extra ! i))
           \<subseteq> {..<length heap + length extra}"
  shows "validHeap (heap @ extra)"
  unfolding validHeap_def
proof (intro allI impI)
  fix a assume a: "a < length (heap @ extra)"
  show "dependenciesOf (heap @ extra) a \<subseteq> {..<length (heap @ extra)}"
  proof (cases "a < length heap")
    case True
    with assms(1) have "dependenciesOf heap a \<subseteq> {..<length heap}"
      by (simp add: validHeap_def)
    with True show ?thesis
      by (auto simp: dependenciesOf_append)
  next
    case False
    with a have "a - length heap < length extra" by simp
    with assms(2) False a show ?thesis
      by (auto simp: dependenciesOf_def selfOf_def upstreamOf_def nth_append)
  qed
qed

lemma registryOk_update:
  assumes "registryOk heap phs"
    and "ph_name x = k"
    and "\<not> ph_isSynthetic x \<longrightarrow> matchesPhaseNameRegexp phaseNamePrefix k"
  shows "registryOk (heap @ [x]) (AList.update k (length heap) phs)"
proof -
  have d: "distinct (map fst (AList.update k (length heap) phs))"
    using assms(1) by (simp add: registryOk_def distinct_update)
  have "\<forall>(k', a)\<in>set (AList.update k (length heap) phs).
      a < length (heap @ [x]) \<and> ph_name ((heap @ [x]) ! a) = k'
      \<and> (\<not> ph_isSynthetic ((heap @ [x]) ! a) \<longrightarrow> matchesPhaseNameRegexp phaseNamePrefix k')"
  proof (clarify)
    fix k' a assume "(k', a) \<in> set (AList.update k (length heap) phs)"
    with d have m: "map_of (AList.update k (length heap) phs) k' = Some a" by simp
    show "a < length (heap @ [x]) \<and> ph_name ((heap @ [x]) ! a) = k'
      \<and> (\<not> ph_isSynthetic ((heap @ [x]) ! a) \<longrightarrow> matchesPhaseNameRegexp phaseNamePrefix k')"
    proof (cases "k' = k")
      case True
      with m have "a = length heap" by (simp add: update_conv')
      with True assms(2,3) show ?thesis by simp
    next
      case False
      with m have "map_of phs k' = Some a" by (simp add: update_conv')
      then have "(k', a) \<in> set phs" by (rule map_of_SomeD)
      with assms(1) show ?thesis by (auto simp: registryOk_def nth_append)
    qed
  qed
  with d show ?thesis by (simp add: registryOk_def)
qed

subsection \<open>The phases stage\<close>

definition phasesOk :: "CommandLineConfiguration \<Rightarrow> bool" where
  "phasesOk this = (validHeap (phaseHeap this) \<and> registryOk (phaseHeap this) (phases this))"

definition sameButPhases :: "CommandLineConfiguration \<Rightarrow> CommandLineConfiguration \<Rightarrow> bool" where
  "sameButPhases this this' =
     (phaseSetHeap this' = phaseSetHeap this \<and> parameterSetHeap this' = parameterSetHeap this
      \<and> commands this' = commands this \<and> parameters this' = parameters this
      \<and> syntheticPhasesByTranslatedBulkCommandName this'
          = syntheticPhasesByTranslatedBulkCommandName this)"

lemma registerPhases_ok:
  "registerPhases phasesJson this = Inr this' \<Longrightarrow> phasesOk this
     \<Longrightarrow> phasesOk this' \<and> sameButPhases this this'"
proof (induction phasesJson arbitrary: this)
  case Nil
  then show ?case by (simp add: sameButPhases_def)
next
  case (Cons phase rest)
  let ?next = "this\<lparr>phaseHeap := phaseHeap this @ [processedPhase phase],
      phases := AList.update (pj_name phase) (length (phaseHeap this)) (phases this)\<rparr>"
  from Cons.prems(1) have m: "matchesPhaseNameRegexp phaseNamePrefix (pj_name phase)"
    and r: "registerPhases rest ?next = Inr this'"
    by (auto split: if_splits)
  have "validHeap (phaseHeap this @ [processedPhase phase])"
    using Cons.prems(2) by (intro validHeap_append) (simp_all add: phasesOk_def processedPhase_def)
  moreover have "registryOk (phaseHeap this @ [processedPhase phase])
      (AList.update (pj_name phase) (length (phaseHeap this)) (phases this))"
    using Cons.prems(2) m by (intro registryOk_update) (simp_all add: phasesOk_def processedPhase_def)
  ultimately have "phasesOk ?next" by (simp add: phasesOk_def)
  from Cons.IH [OF r this] show ?case by (simp add: sameButPhases_def)
qed

lemma validHeap_add_self:
  assumes "validHeap heap" and "dep < length heap"
  shows "validHeap (heap[a := (heap ! a)\<lparr>ph_self := Set_add dep (ph_self (heap ! a))\<rparr>])"
  unfolding validHeap_def
proof (intro allI impI)
  fix b assume "b < length (heap[a := (heap ! a)\<lparr>ph_self := Set_add dep (ph_self (heap ! a))\<rparr>])"
  then have b: "b < length heap" by simp
  with assms(1) have "dependenciesOf heap b \<subseteq> {..<length heap}" by (simp add: validHeap_def)
  then have old: "set (ph_self (heap ! b)) \<subseteq> {..<length heap}"
      "set (ph_upstream (heap ! b)) \<subseteq> {..<length heap}"
    using b by (simp_all add: dependenciesOf_def selfOf_def upstreamOf_def)
  show "dependenciesOf (heap[a := (heap ! a)\<lparr>ph_self := Set_add dep (ph_self (heap ! a))\<rparr>]) b
      \<subseteq> {..<length (heap[a := (heap ! a)\<lparr>ph_self := Set_add dep (ph_self (heap ! a))\<rparr>])}"
  proof (cases "b = a")
    case True
    with b old assms(2) show ?thesis
      by (simp add: dependenciesOf_def selfOf_def upstreamOf_def)
  next
    case False
    with b old show ?thesis
      by (simp add: dependenciesOf_def selfOf_def upstreamOf_def)
  qed
qed

lemma validHeap_add_upstream:
  assumes "validHeap heap" and "dep < length heap"
  shows "validHeap (heap[a := (heap ! a)\<lparr>ph_upstream := Set_add dep (ph_upstream (heap ! a))\<rparr>])"
  unfolding validHeap_def
proof (intro allI impI)
  fix b assume "b < length (heap[a := (heap ! a)\<lparr>ph_upstream := Set_add dep (ph_upstream (heap ! a))\<rparr>])"
  then have b: "b < length heap" by simp
  with assms(1) have "dependenciesOf heap b \<subseteq> {..<length heap}" by (simp add: validHeap_def)
  then have old: "set (ph_self (heap ! b)) \<subseteq> {..<length heap}"
      "set (ph_upstream (heap ! b)) \<subseteq> {..<length heap}"
    using b by (simp_all add: dependenciesOf_def selfOf_def upstreamOf_def)
  show "dependenciesOf (heap[a := (heap ! a)\<lparr>ph_upstream := Set_add dep (ph_upstream (heap ! a))\<rparr>]) b
      \<subseteq> {..<length (heap[a := (heap ! a)\<lparr>ph_upstream := Set_add dep (ph_upstream (heap ! a))\<rparr>])}"
  proof (cases "b = a")
    case True
    with b old assms(2) show ?thesis
      by (simp add: dependenciesOf_def selfOf_def upstreamOf_def)
  next
    case False
    with b old show ?thesis
      by (simp add: dependenciesOf_def selfOf_def upstreamOf_def)
  qed
qed

lemma registryOk_same_names:
  assumes "registryOk heap phs" and "length heap' = length heap"
    and "\<forall>a<length heap. ph_name (heap' ! a) = ph_name (heap ! a)
           \<and> ph_isSynthetic (heap' ! a) = ph_isSynthetic (heap ! a)"
  shows "registryOk heap' phs"
  using assms unfolding registryOk_def by auto

lemma registryOk_list_update:
  assumes "registryOk heap phs"
    and "ph_name x = ph_name (heap ! a)" and "ph_isSynthetic x = ph_isSynthetic (heap ! a)"
  shows "registryOk (heap[a := x]) phs"
  unfolding registryOk_def
proof (intro conjI ballI)
  from assms(1) show "distinct (map fst phs)" by (simp add: registryOk_def)
next
  fix e assume e: "e \<in> set phs"
  obtain k b where kb: "e = (k, b)" by (cases e)
  with e assms(1) have b: "b < length heap" "ph_name (heap ! b) = k"
      "\<not> ph_isSynthetic (heap ! b) \<longrightarrow> matchesPhaseNameRegexp phaseNamePrefix k"
    by (auto simp: registryOk_def)
  show "case e of (k, a') \<Rightarrow> a' < length (heap[a := x]) \<and> ph_name (heap[a := x] ! a') = k
      \<and> (\<not> ph_isSynthetic (heap[a := x] ! a') \<longrightarrow> matchesPhaseNameRegexp phaseNamePrefix k)"
  proof (cases "b = a")
    case True
    with kb b assms(2,3) show ?thesis by simp
  next
    case False
    with kb b show ?thesis by simp
  qed
qed

lemma registry_lookup:
  "registryOk heap phs \<Longrightarrow> map_of phs n = Some a \<Longrightarrow> a < length heap \<and> nameOf heap a = n"
  by (auto simp: registryOk_def nameOf_def dest!: map_of_SomeD)

lemma addSelfDependencies_ok:
  "addSelfDependencies phase names this = Inr this' \<Longrightarrow> phasesOk this
     \<Longrightarrow> phasesOk this' \<and> sameButPhases this this'"
proof (induction names arbitrary: this)
  case Nil
  then show ?case by (simp add: sameButPhases_def)
next
  case (Cons n rest)
  from Cons.prems(1) obtain dep where dep: "map_of (phases this) n = Some dep"
    by (auto split: option.splits)
  let ?heap = "(phaseHeap this)[phase := (phaseHeap this ! phase)
      \<lparr>ph_self := Set_add dep (ph_self (phaseHeap this ! phase))\<rparr>]"
  from Cons.prems(1) dep have r: "addSelfDependencies phase rest (this\<lparr>phaseHeap := ?heap\<rparr>) = Inr this'"
    by simp
  from Cons.prems(2) dep have d: "dep < length (phaseHeap this)"
    by (auto simp: phasesOk_def dest: registry_lookup)
  have "validHeap ?heap"
    using Cons.prems(2) d by (intro validHeap_add_self) (simp_all add: phasesOk_def)
  moreover have "registryOk ?heap (phases this)"
    using Cons.prems(2) by (intro registryOk_list_update) (simp_all add: phasesOk_def)
  ultimately have "phasesOk (this\<lparr>phaseHeap := ?heap\<rparr>)" by (simp add: phasesOk_def)
  from Cons.IH [OF r this] show ?case by (simp add: sameButPhases_def)
qed

lemma addUpstreamDependencies_ok:
  "addUpstreamDependencies phase names this = Inr this' \<Longrightarrow> phasesOk this
     \<Longrightarrow> phasesOk this' \<and> sameButPhases this this'"
proof (induction names arbitrary: this)
  case Nil
  then show ?case by (simp add: sameButPhases_def)
next
  case (Cons n rest)
  from Cons.prems(1) obtain dep where dep: "map_of (phases this) n = Some dep"
    by (auto split: option.splits)
  let ?heap = "(phaseHeap this)[phase := (phaseHeap this ! phase)
      \<lparr>ph_upstream := Set_add dep (ph_upstream (phaseHeap this ! phase))\<rparr>]"
  from Cons.prems(1) dep have r: "addUpstreamDependencies phase rest (this\<lparr>phaseHeap := ?heap\<rparr>) = Inr this'"
    by simp
  from Cons.prems(2) dep have d: "dep < length (phaseHeap this)"
    by (auto simp: phasesOk_def dest: registry_lookup)
  have "validHeap ?heap"
    using Cons.prems(2) d by (intro validHeap_add_upstream) (simp_all add: phasesOk_def)
  moreover have "registryOk ?heap (phases this)"
    using Cons.prems(2) by (intro registryOk_list_update) (simp_all add: phasesOk_def)
  ultimately have "phasesOk (this\<lparr>phaseHeap := ?heap\<rparr>)" by (simp add: phasesOk_def)
  from Cons.IH [OF r this] show ?case by (simp add: sameButPhases_def)
qed

lemma sameButPhases_trans:
  "sameButPhases a b \<Longrightarrow> sameButPhases b c \<Longrightarrow> sameButPhases a c"
  by (simp add: sameButPhases_def)

lemma sameButPhases_refl: "sameButPhases a a"
  by (simp add: sameButPhases_def)

lemma resolvePhaseDependencies_ok:
  "resolvePhaseDependencies phasesJson this = Inr this' \<Longrightarrow> phasesOk this
     \<Longrightarrow> phasesOk this' \<and> sameButPhases this this'"
proof (induction phasesJson arbitrary: this)
  case Nil
  then show ?case by (simp add: sameButPhases_def)
next
  case (Cons rawPhase rest)
  from Cons.prems(1) obtain phase where ph: "map_of (phases this) (pj_name rawPhase) = Some phase"
    by (auto split: option.splits)
  let ?s = "case pj_self rawPhase of None \<Rightarrow> Inr this
     | Some ds \<Rightarrow> addSelfDependencies phase ds this"
  from Cons.prems(1) ph obtain this1 where s1: "?s = Inr this1"
    by (cases ?s) simp_all
  let ?u = "case pj_upstream rawPhase of None \<Rightarrow> Inr this1
     | Some ds \<Rightarrow> addUpstreamDependencies phase ds this1"
  from Cons.prems(1) ph s1 obtain this2 where s2: "?u = Inr this2"
    by (cases ?u) simp_all
  from Cons.prems(1) ph s1 s2 have r: "resolvePhaseDependencies rest this2 = Inr this'"
    by simp
  have ok1: "phasesOk this1 \<and> sameButPhases this this1"
  proof (cases "pj_self rawPhase")
    case None
    with s1 Cons.prems(2) show ?thesis by (simp add: sameButPhases_refl)
  next
    case (Some ds)
    with s1 have "addSelfDependencies phase ds this = Inr this1" by simp
    from addSelfDependencies_ok [OF this Cons.prems(2)] show ?thesis .
  qed
  have ok2: "phasesOk this2 \<and> sameButPhases this1 this2"
  proof (cases "pj_upstream rawPhase")
    case None
    with s2 ok1 show ?thesis by (simp add: sameButPhases_refl)
  next
    case (Some ds)
    with s2 have "addUpstreamDependencies phase ds this1 = Inr this2" by simp
    from addUpstreamDependencies_ok [OF this] ok1 show ?thesis by blast
  qed
  from Cons.IH [OF r] ok1 ok2 show ?case
    by (blast intro: sameButPhases_trans)
qed

lemma constructPhases_ok:
  assumes "constructPhases phasesJson this = Inr this'" and "phasesOk this"
  shows "phasesOk this' \<and> sameButPhases this this'"
proof -
  from assms(1) obtain this1 where r1: "registerPhases phasesJson this = Inr this1"
    and r2: "resolvePhaseDependencies phasesJson this1 = Inr this'"
    by (auto simp: constructPhases_def split: sum.splits)
  from registerPhases_ok [OF r1 assms(2)] resolvePhaseDependencies_ok [OF r2]
  show ?thesis by (blast intro: sameButPhases_trans)
qed

subsection \<open>The commands stage\<close>

lemma addCommandPhases_ok:
  "addCommandPhases phs commandName names acc = Inr r \<Longrightarrow> registryOk heap phs
     \<Longrightarrow> set acc \<subseteq> {..<length heap}
     \<Longrightarrow> set r \<subseteq> {..<length heap} \<and> set acc \<subseteq> set r
         \<and> (\<forall>n\<in>set names. \<exists>a\<in>set r. nameOf heap a = n)"
proof (induction names arbitrary: acc)
  case Nil
  then show ?case by simp
next
  case (Cons n rest)
  from Cons.prems(1) obtain a where a: "map_of phs n = Some a"
    by (auto split: option.splits)
  with Cons.prems(1) have r: "addCommandPhases phs commandName rest (Set_add a acc) = Inr r"
    by simp
  from registry_lookup [OF Cons.prems(2) a] have al: "a < length heap" "nameOf heap a = n"
    by simp_all
  with Cons.prems(3) have "set (Set_add a acc) \<subseteq> {..<length heap}" by simp
  from Cons.IH [OF r Cons.prems(2) this] al show ?case by auto
qed

lemma expandPhases_valid:
  "validHeap heap \<Longrightarrow> set s \<subseteq> {..<length heap}
     \<Longrightarrow> set (expandPhases heap i s) \<subseteq> {..<length heap}"
proof (induction heap i s rule: expandPhases.induct)
  case (1 heap i s)
  show ?case
  proof (cases "i < length s")
    case False
    with "1.prems" show ?thesis by simp
  next
    case True
    with "1.prems"(2) have v: "s ! i < length heap" by (auto dest: nth_mem)
    with "1.prems"(1) have "dependenciesOf heap (s ! i) \<subseteq> {..<length heap}"
      by (simp add: validHeap_def)
    with "1.prems"(2) have "set (Set_addAll (upstreamOf heap (s ! i))
        (Set_addAll (selfOf heap (s ! i)) s)) \<subseteq> {..<length heap}"
      by (auto simp: dependenciesOf_def)
    from "1.IH" [OF True "1.prems"(1) this] True show ?thesis by simp
  qed
qed

lemma set_update_subset: "set (AList.update k v al) \<subseteq> insert (k, v) (set al)"
  by (induction al) auto

lemma commandsOk_update:
  "commandsOk heap sets cmds \<Longrightarrow> commandOk heap sets c \<Longrightarrow> cmd_name c = k
     \<Longrightarrow> commandsOk heap sets (AList.update k c cmds)"
  using set_update_subset [of k c cmds] unfolding commandsOk_def by blast

definition normalizedFrom :: "CommandLineConfiguration \<Rightarrow> CommandJson \<Rightarrow> Command \<Rightarrow> CommandLineConfiguration \<Rightarrow> bool" where
  "normalizedFrom this command c this' =
     (validHeap (phaseHeap this') \<and> registryOk (phaseHeap this') (phases this')
      \<and> commandsOk (phaseHeap this') (phaseSetHeap this') (commands this)
      \<and> commandOk (phaseHeap this') (phaseSetHeap this') c
      \<and> commands this' = commands this \<and> cmd_json c = command)"

lemma normalizePhasedCommand_ok:
  assumes wf: "wellFormed this"
    and n: "normalizePhasedCommand command this = Inr (c, this')"
    and k: "cj_commandKind command = phasedCommandKind"
  shows "normalizedFrom this command c this'"
proof -
  let ?heap = "phaseHeap this" and ?sets = "phaseSetHeap this"
  from n obtain declared where d: "addCommandPhases (phases this) (cj_name command)
      (cj_phases command) [] = Inr declared"
    by (auto simp: normalizePhasedCommand_def split: sum.splits)
  from n d obtain alwaysWatch watchPhases where
    c: "c = \<lparr>cmd_json = command, cmd_commandKind = cj_commandKind command,
        cmd_isSynthetic = False, cmd_associatedParameters = length (parameterSetHeap this),
        cmd_phases = Some (length ?sets), cmd_watchPhases = Some (Suc (length ?sets)),
        cmd_alwaysWatch = alwaysWatch, cmd_disableBuildCache = cj_disableBuildCache command\<rparr>"
    and t: "this' = this\<lparr>phaseSetHeap := ?sets @ [expandPhases ?heap 0 declared, watchPhases],
        parameterSetHeap := parameterSetHeap this @ [[]]\<rparr>"
    by (auto simp: normalizePhasedCommand_def split: sum.splits prod.splits)
  from wf have vh: "validHeap ?heap" and ro: "registryOk ?heap (phases this)"
    and co: "commandsOk ?heap ?sets (commands this)"
    by (simp_all add: wellFormed_def)
  from addCommandPhases_ok [OF d ro] have dv: "set declared \<subseteq> {..<length ?heap}"
    and dn: "\<forall>n\<in>set (cj_phases command). \<exists>a\<in>set declared. nameOf ?heap a = n"
    by simp_all
  let ?e = "expandPhases ?heap 0 declared"
  have ev: "set ?e \<subseteq> {..<length ?heap}"
    using vh dv by (rule expandPhases_valid)
  have ec: "closedUnderDependencies ?heap (set ?e)" and es: "set declared \<subseteq> set ?e"
    using expandPhases_closed [of 0 declared ?heap] by simp_all
  let ?sets' = "?sets @ [?e, watchPhases]"
  have nth: "?sets' ! length ?sets = ?e" by (simp add: nth_append)
  have "phaseSetOk ?heap ?sets' (length ?sets)"
    unfolding phaseSetOk_def nth using ev ec by simp
  moreover have "\<forall>n\<in>set (cj_phases command). \<exists>a\<in>set (?sets' ! length ?sets). nameOf ?heap a = n"
    unfolding nth using dn es by blast
  ultimately have "commandOk ?heap ?sets' c"
    unfolding commandOk_def using c k by simp
  moreover have "commandsOk ?heap ?sets' (commands this)"
    using commandsOk_append [OF co, of "[]" "[?e, watchPhases]"] by simp
  ultimately show ?thesis
    using vh ro c t by (simp add: normalizedFrom_def)
qed

lemma normalizeGlobalCommand_ok:
  assumes wf: "wellFormed this"
    and n: "normalizeGlobalCommand command this = (c, this')"
    and k: "cj_commandKind command = globalCommandKind"
  shows "normalizedFrom this command c this'"
  using assms
  by (auto simp: normalizeGlobalCommand_def normalizedFrom_def wellFormed_def commandOk_def)

lemma translateBulkCommand_ok:
  assumes wf: "wellFormed this"
    and n: "translateBulkCommandToPhasedCommand command this = (c, this')"
  shows "normalizedFrom this command c this'"
proof -
  let ?heap = "phaseHeap this" and ?sets = "phaseSetHeap this"
  let ?a = "length ?heap"
  let ?more = "if truthy (cj_watchForChanges command) then [[?a]] else [[?a], []]"
  let ?heap' = "?heap @ [syntheticPhase command ?a]" and ?sets' = "?sets @ ?more"
  from n have h: "phaseHeap this' = ?heap'" and s: "phaseSetHeap this' = ?sets'"
    and p: "phases this' = AList.update (cj_name command) ?a (phases this)"
    and cm: "commands this' = commands this"
    and c: "cmd_json c = command" "cmd_phases c = Some (length ?sets)" "cmd_isSynthetic c"
      "cmd_commandKind c = phasedCommandKind"
    by (auto simp: translateBulkCommandToPhasedCommand_def Let_def)
  from wf have vh: "validHeap ?heap" and ro: "registryOk ?heap (phases this)"
    and co: "commandsOk ?heap ?sets (commands this)"
    by (simp_all add: wellFormed_def)
  have vh': "validHeap ?heap'"
    using vh by (intro validHeap_append) (auto simp: syntheticPhase_def)
  have ro': "registryOk ?heap' (AList.update (cj_name command) ?a (phases this))"
    using ro by (intro registryOk_update) (simp_all add: syntheticPhase_def)
  have co': "commandsOk ?heap' ?sets' (commands this)"
    using co by (rule commandsOk_append)
  have nth: "?sets' ! length ?sets = [?a]" by (simp add: nth_append)
  have "dependenciesOf ?heap' ?a \<subseteq> {?a}"
    by (auto simp: dependenciesOf_def selfOf_def upstreamOf_def syntheticPhase_def)
  then have "phaseSetOk ?heap' ?sets' (length ?sets)"
    unfolding phaseSetOk_def nth by (simp add: closedUnderDependencies_def)
  with c have "commandOk ?heap' ?sets' c"
    unfolding commandOk_def by simp
  with vh' ro' co' h s p cm c(1) show ?thesis
    by (simp add: normalizedFrom_def)
qed

lemma normalizeCommand_ok:
  assumes "wellFormed this" and "normalizeCommand command this = Inr (c, this')"
  shows "normalizedFrom this command c this'"
proof (cases "cj_commandKind command")
  case bulkCommandKind
  with assms(2) have "translateBulkCommandToPhasedCommand command this = (c, this')"
    by (simp add: normalizeCommand_def)
  with assms(1) show ?thesis by (rule translateBulkCommand_ok)
next
  case globalCommandKind
  with assms(2) have "normalizeGlobalCommand command this = (c, this')"
    by (simp add: normalizeCommand_def)
  with assms(1) show ?thesis using globalCommandKind by (rule normalizeGlobalCommand_ok)
next
  case phasedCommandKind
  with assms(2) have "normalizePhasedCommand command this = Inr (c, this')"
    by (simp add: normalizeCommand_def)
  with assms(1) show ?thesis using phasedCommandKind by (rule normalizePhasedCommand_ok)
qed

text \<open>
  The variable \<open>buildCommandPhases\<close> is the set \<open>phases\<close> of the command \<open>build\<close>, once that
  command is there.
\<close>

definition buildPhasesTracked :: "CommandLineConfiguration \<times> nat option \<Rightarrow> bool" where
  "buildPhasesTracked s =
     (\<forall>c. map_of (commands (fst s)) buildCommandName = Some c \<longrightarrow> snd s = cmd_phases c)"

lemma processCommand_ok:
  assumes p: "processCommand command s = Inr s'" and wf: "wellFormed (fst s)"
  shows "wellFormed (fst s')
       \<and> fst ` set (commands (fst s')) = insert (cj_name command) (fst ` set (commands (fst s)))
       \<and> (buildPhasesTracked s \<longrightarrow> buildPhasesTracked s')"
proof -
  from p obtain c this' where n: "normalizeCommand command (fst s) = Inr (c, this')"
    by (auto simp: processCommand_def split: if_splits sum.splits)
  from p n obtain b where b: "checkBuildCommand command c (snd s) = Inr b"
    and s': "s' = (this'\<lparr>commands := AList.update (cmd_name c) c (commands this')\<rparr>, b)"
    by (auto simp: processCommand_def split: if_splits sum.splits)
  from normalizeCommand_ok [OF wf n] have nf: "normalizedFrom (fst s) command c this'" .
  then have name: "cmd_name c = cj_name command" and cm: "commands this' = commands (fst s)"
    by (simp_all add: normalizedFrom_def cmd_name_def)
  from nf have "commandsOk (phaseHeap this') (phaseSetHeap this')
      (AList.update (cmd_name c) c (commands this'))"
    by (intro commandsOk_update) (simp_all add: normalizedFrom_def)
  with nf s' have w: "wellFormed (fst s')"
    by (simp add: wellFormed_def normalizedFrom_def)
  have keys: "fst ` set (commands (fst s')) = insert (cj_name command) (fst ` set (commands (fst s)))"
    using s' name cm by (simp add: dom_update)
  have "buildPhasesTracked s \<longrightarrow> buildPhasesTracked s'"
  proof
    assume tr: "buildPhasesTracked s"
    show "buildPhasesTracked s'"
    proof (cases "cj_name command = buildCommandName")
      case True
      with b name have "b = cmd_phases c"
        by (auto simp: checkBuildCommand_def split: if_splits)
      with s' name True show ?thesis
        by (simp add: buildPhasesTracked_def update_conv')
    next
      case False
      with b name have "b = snd s"
        by (auto simp: checkBuildCommand_def split: if_splits)
      with s' name cm False tr show ?thesis
        by (simp add: buildPhasesTracked_def update_conv')
    qed
  qed
  with w keys show ?thesis by blast
qed

lemma processCommands_ok:
  "processCommands commandsJson s = Inr s' \<Longrightarrow> wellFormed (fst s)
     \<Longrightarrow> wellFormed (fst s')
       \<and> fst ` set (commands (fst s')) = set (map cj_name commandsJson) \<union> fst ` set (commands (fst s))
       \<and> (buildPhasesTracked s \<longrightarrow> buildPhasesTracked s')"
proof (induction commandsJson arbitrary: s)
  case Nil
  then show ?case by simp
next
  case (Cons command rest)
  from Cons.prems(1) obtain s1 where s1: "processCommand command s = Inr s1"
    and r: "processCommands rest s1 = Inr s'"
    by (auto split: sum.splits)
  from processCommand_ok [OF s1 Cons.prems(2)]
  have ok1: "wellFormed (fst s1)"
    "fst ` set (commands (fst s1)) = insert (cj_name command) (fst ` set (commands (fst s)))"
    "buildPhasesTracked s \<longrightarrow> buildPhasesTracked s1"
    by blast+
  from Cons.IH [OF r ok1(1)] ok1(2,3) show ?case by auto
qed

subsection \<open>The default commands\<close>

lemma addDefaultBuildCommand_ok:
  assumes a: "addDefaultBuildCommand s = (buildCommand, this', b)"
    and wf: "wellFormed (fst s)" and tr: "buildPhasesTracked s"
  shows "wellFormed this'
       \<and> map_of (commands this') buildCommandName = Some buildCommand
       \<and> b = cmd_phases buildCommand
       \<and> fst ` set (commands this') = insert buildCommandName (fst ` set (commands (fst s)))"
proof (cases "map_of (commands (fst s)) buildCommandName")
  case (Some c)
  with a have e: "buildCommand = c" "this' = fst s" "b = snd s"
    by (simp_all add: addDefaultBuildCommand_def)
  from Some have "buildCommandName \<in> fst ` set (commands (fst s))"
    by (auto dest: map_of_SomeD intro: rev_image_eqI)
  with e Some wf tr show ?thesis
    by (auto simp: buildPhasesTracked_def)
next
  case None
  let ?t = "translateBulkCommandToPhasedCommand DEFAULT_BUILD_COMMAND_JSON (fst s)"
  let ?bc = "(fst ?t)\<lparr>cmd_disableBuildCache := cj_disableBuildCache DEFAULT_BUILD_COMMAND_JSON\<rparr>"
  from a None have e: "buildCommand = ?bc"
    "this' = (snd ?t)\<lparr>commands := AList.update (cmd_name ?bc) ?bc (commands (snd ?t))\<rparr>"
    "b = cmd_phases ?bc"
    by (auto simp: addDefaultBuildCommand_def Let_def)
  have "normalizedFrom (fst s) DEFAULT_BUILD_COMMAND_JSON (fst ?t) (snd ?t)"
    using wf by (rule translateBulkCommand_ok) simp
  moreover have "commandOk h ss ?bc = commandOk h ss (fst ?t)" for h ss
    by (simp add: commandOk_def)
  ultimately have nf: "normalizedFrom (fst s) DEFAULT_BUILD_COMMAND_JSON ?bc (snd ?t)"
    by (simp add: normalizedFrom_def)
  then have name: "cmd_name ?bc = buildCommandName"
    by (simp add: normalizedFrom_def cmd_name_def DEFAULT_BUILD_COMMAND_JSON_def)
  from nf have "commandsOk (phaseHeap (snd ?t)) (phaseSetHeap (snd ?t))
      (AList.update (cmd_name ?bc) ?bc (commands (snd ?t)))"
    by (intro commandsOk_update) (simp_all add: normalizedFrom_def)
  with nf e(2) have w: "wellFormed this'"
    by (simp add: wellFormed_def normalizedFrom_def)
  from nf have cm: "commands (snd ?t) = commands (fst s)"
    by (simp add: normalizedFrom_def)
  from e name cm have "map_of (commands this') buildCommandName = Some buildCommand"
    by (simp add: update_conv')
  moreover from e(2) name cm
  have "fst ` set (commands this') = insert buildCommandName (fst ` set (commands (fst s)))"
    by (simp add: dom_update)
  ultimately show ?thesis using w e(1,3) by blast
qed

lemma addDefaultRebuildCommand_ok:
  assumes a: "addDefaultRebuildCommand (buildCommand, this, b) = Inr this'"
    and wf: "wellFormed this"
    and bc: "map_of (commands this) buildCommandName = Some buildCommand"
    and b: "b = cmd_phases buildCommand"
  shows "wellFormed this'
       \<and> map_of (commands this') buildCommandName = Some buildCommand
       \<and> fst ` set (commands this') = insert rebuildCommandName (fst ` set (commands this))
       \<and> (map_of (commands this) rebuildCommandName = None \<longrightarrow>
            (\<exists>rebuildCommand. map_of (commands this') rebuildCommandName = Some rebuildCommand
               \<and> cmd_isSynthetic rebuildCommand
               \<and> cmd_commandKind rebuildCommand = phasedCommandKind
               \<and> cmd_phases rebuildCommand = cmd_phases buildCommand
               \<and> cmd_associatedParameters rebuildCommand = cmd_associatedParameters buildCommand))"
proof (cases "map_of (commands this) rebuildCommandName")
  case (Some c)
  with a have "this' = this" by (simp add: addDefaultRebuildCommand_def)
  moreover from Some have "rebuildCommandName \<in> fst ` set (commands this)"
    by (auto dest: map_of_SomeD intro: rev_image_eqI)
  ultimately show ?thesis using wf bc Some by auto
next
  case None
  with a obtain ph where ph: "b = Some ph"
    by (auto simp: addDefaultRebuildCommand_def split: option.splits)
  let ?rc = "defaultRebuildCommand buildCommand ph (length (phaseSetHeap this))"
  from a None ph have t: "this' = this\<lparr>phaseSetHeap := phaseSetHeap this @ [[]],
      commands := AList.update (cmd_name ?rc) ?rc (commands this)\<rparr>"
    by (simp add: addDefaultRebuildCommand_def Let_def)
  have name: "cmd_name ?rc = rebuildCommandName"
    by (simp add: defaultRebuildCommand_def cmd_name_def DEFAULT_REBUILD_COMMAND_JSON_def)
  have ne: "rebuildCommandName \<noteq> buildCommandName"
    by (simp add: rebuildCommandName_def buildCommandName_def)
  from wf have co: "commandsOk (phaseHeap this) (phaseSetHeap this) (commands this)"
    by (simp add: wellFormed_def)
  from bc have "(buildCommandName, buildCommand) \<in> set (commands this)"
    by (rule map_of_SomeD)
  with co have bok: "commandOk (phaseHeap this) (phaseSetHeap this) buildCommand"
    by (auto simp: commandsOk_def)
  have co': "commandsOk (phaseHeap this) (phaseSetHeap this @ [[]]) (commands this)"
    using commandsOk_append [OF co, of "[]" "[[]]"] by simp
  have rok: "commandOk (phaseHeap this) (phaseSetHeap this @ [[]]) ?rc"
  proof -
    have "phaseSetOk (phaseHeap this) (phaseSetHeap this @ [[]]) ph"
    proof (cases "cmd_commandKind buildCommand = phasedCommandKind")
      case True
      with bok b ph have "phaseSetOk (phaseHeap this) (phaseSetHeap this) ph"
        by (auto simp: commandOk_def)
      from phaseSetOk_append [OF this, of "[]" "[[]]"] show ?thesis by simp
    next
      case False
      with bok b ph show ?thesis by (simp add: commandOk_def)
    qed
    then show ?thesis
      by (simp add: commandOk_def defaultRebuildCommand_def DEFAULT_REBUILD_COMMAND_JSON_def)
  qed
  from co' rok name have "commandsOk (phaseHeap this) (phaseSetHeap this @ [[]])
      (AList.update (cmd_name ?rc) ?rc (commands this))"
    by (intro commandsOk_update) simp_all
  with wf t have w: "wellFormed this'"
    by (simp add: wellFormed_def)
  from t name ne bc have b': "map_of (commands this') buildCommandName = Some buildCommand"
    by (simp add: update_conv')
  from t name have k: "fst ` set (commands this') = insert rebuildCommandName (fst ` set (commands this))"
    by (simp add: dom_update)
  from t name have "map_of (commands this') rebuildCommandName = Some ?rc"
    by (simp add: update_conv')
  moreover have "cmd_isSynthetic ?rc" "cmd_commandKind ?rc = phasedCommandKind"
    "cmd_phases ?rc = cmd_phases buildCommand"
    "cmd_associatedParameters ?rc = cmd_associatedParameters buildCommand"
    using b ph by (simp_all add: defaultRebuildCommand_def)
  ultimately show ?thesis using w b' k by blast
qed

lemma addDefaultBuildCommands_ok:
  assumes a: "addDefaultBuildCommands s = Inr this'"
    and wf: "wellFormed (fst s)" and tr: "buildPhasesTracked s"
  shows "wellFormed this'
       \<and> fst ` set (commands this')
           = {buildCommandName, rebuildCommandName} \<union> fst ` set (commands (fst s))
       \<and> (map_of (commands (fst s)) rebuildCommandName = None \<longrightarrow>
            (\<exists>buildCommand rebuildCommand.
               map_of (commands this') buildCommandName = Some buildCommand
             \<and> map_of (commands this') rebuildCommandName = Some rebuildCommand
             \<and> cmd_isSynthetic rebuildCommand
               \<and> cmd_commandKind rebuildCommand = phasedCommandKind
             \<and> cmd_phases rebuildCommand = cmd_phases buildCommand
             \<and> cmd_associatedParameters rebuildCommand = cmd_associatedParameters buildCommand))"
proof -
  obtain buildCommand this1 b where d: "addDefaultBuildCommand s = (buildCommand, this1, b)"
    by (cases "addDefaultBuildCommand s") auto
  from addDefaultBuildCommand_ok [OF d wf tr]
  have ok1: "wellFormed this1" "map_of (commands this1) buildCommandName = Some buildCommand"
    "b = cmd_phases buildCommand"
    "fst ` set (commands this1) = insert buildCommandName (fst ` set (commands (fst s)))"
    by blast+
  from a d have r: "addDefaultRebuildCommand (buildCommand, this1, b) = Inr this'"
    by (simp add: addDefaultBuildCommands_def)
  from addDefaultRebuildCommand_ok [OF r ok1(1,2,3)]
  have ok2: "wellFormed this'" "map_of (commands this') buildCommandName = Some buildCommand"
    "fst ` set (commands this') = insert rebuildCommandName (fst ` set (commands this1))"
    "map_of (commands this1) rebuildCommandName = None \<longrightarrow>
       (\<exists>rebuildCommand. map_of (commands this') rebuildCommandName = Some rebuildCommand
          \<and> cmd_isSynthetic rebuildCommand
               \<and> cmd_commandKind rebuildCommand = phasedCommandKind
          \<and> cmd_phases rebuildCommand = cmd_phases buildCommand
          \<and> cmd_associatedParameters rebuildCommand = cmd_associatedParameters buildCommand)"
    by blast+
  have "map_of (commands (fst s)) rebuildCommandName = None
      \<longrightarrow> map_of (commands this1) rebuildCommandName = None"
  proof
    assume n: "map_of (commands (fst s)) rebuildCommandName = None"
    have "rebuildCommandName \<notin> fst ` set (commands this1)"
      unfolding ok1(4) using n
      by (simp add: map_of_eq_None_iff rebuildCommandName_def buildCommandName_def)
    then show "map_of (commands this1) rebuildCommandName = None"
      by (simp add: map_of_eq_None_iff)
  qed
  with ok1 ok2 show ?thesis by auto
qed

subsection \<open>The parameters stage\<close>

definition sameButParameters :: "CommandLineConfiguration \<Rightarrow> CommandLineConfiguration \<Rightarrow> bool" where
  "sameButParameters this this' =
     (phaseHeap this' = phaseHeap this \<and> phaseSetHeap this' = phaseSetHeap this
      \<and> commands this' = commands this \<and> phases this' = phases this
      \<and> syntheticPhasesByTranslatedBulkCommandName this'
          = syntheticPhasesByTranslatedBulkCommandName this)"

lemma associateCommands_frame:
  "associateCommands p names s = Inr s' \<Longrightarrow> sameButParameters (fst s) (fst s')"
proof (induction names arbitrary: s)
  case Nil
  then show ?case by (simp add: sameButParameters_def)
next
  case (Cons n rest)
  obtain this h ph where s: "s = (this, h, ph)" by (cases s)
  let ?this1 = "case map_of (syntheticPhasesByTranslatedBulkCommandName this) n of
      None \<Rightarrow> this
    | Some synthetic \<Rightarrow> pushAssociatedPhase p (nameOf (phaseHeap this) synthetic) this"
  have f1: "sameButParameters this ?this1"
    by (simp add: sameButParameters_def pushAssociatedPhase_def split: option.splits)
  from Cons.prems s obtain c where c: "map_of (commands ?this1) n = Some c"
    by (auto simp: Let_def split: option.splits)
  let ?s2 = "(addAssociatedParameter p c ?this1, True, ph \<and> cmd_commandKind c = phasedCommandKind)"
  from Cons.prems s c have r: "associateCommands p rest ?s2 = Inr s'"
    by (simp add: Let_def)
  have f2: "sameButParameters ?this1 (fst ?s2)"
    by (simp add: sameButParameters_def addAssociatedParameter_def)
  from Cons.IH [OF r] f1 f2 s show ?case
    by (simp add: sameButParameters_def)
qed

lemma processParameter_frame:
  assumes "processParameter parameter this = Inr this'"
  shows "sameButParameters this this'"
proof -
  let ?this1 = "this\<lparr>parameters := parameters this @ [normalizeParameter parameter]\<rparr>"
  from assms have a: "associateParameter (length (parameters this)) ?this1 = Inr this'"
    by (auto simp: processParameter_def Let_def split: sum.splits)
  then obtain h ph where "associateCommands (length (parameters this))
      (np_associatedCommands (parameters ?this1 ! length (parameters this))) (?this1, False, True)
      = Inr (this', h, ph)"
    by (auto simp: associateParameter_def split: sum.splits prod.splits if_splits)
  from associateCommands_frame [OF this] show ?thesis
    by (simp add: sameButParameters_def)
qed

lemma processParameters_frame:
  "processParameters parametersJson this = Inr this' \<Longrightarrow> sameButParameters this this'"
proof (induction parametersJson arbitrary: this)
  case Nil
  then show ?case by (simp add: sameButParameters_def)
next
  case (Cons parameter rest)
  from Cons.prems obtain this1 where p: "processParameter parameter this = Inr this1"
    and r: "processParameters rest this1 = Inr this'"
    by (auto split: sum.splits)
  from processParameter_frame [OF p] Cons.IH [OF r] show ?case
    by (simp add: sameButParameters_def)
qed

subsection \<open>The constructor as a whole\<close>

lemma newCommandLineConfiguration_InrE:
  assumes "newCommandLineConfiguration commandLineJson options = Inr configuration"
  obtains this1 s this3 where "phasesStage commandLineJson = Inr this1"
    and "constructCommands commandLineJson this1 = Inr s"
    and "defaultsStage options s = Inr this3"
    and "parametersStage commandLineJson this3 = Inr configuration"
  using assms unfolding newCommandLineConfiguration_def
  by (auto split: sum.splits)

lemma wellFormed_empty: "wellFormed emptyConfiguration"
  by (simp add: wellFormed_def emptyConfiguration_def validHeap_def registryOk_def commandsOk_def)

lemma phasesStage_ok:
  assumes "phasesStage commandLineJson = Inr this1"
  shows "wellFormed this1 \<and> commands this1 = []"
proof (cases "Option.bind commandLineJson clj_phases")
  case None
  with assms have "this1 = emptyConfiguration" by (simp add: phasesStage_def)
  then show ?thesis using wellFormed_empty by (simp add: emptyConfiguration_def)
next
  case (Some phasesJson)
  with assms have c: "constructPhases phasesJson emptyConfiguration = Inr this1"
    by (simp add: phasesStage_def)
  have "phasesOk emptyConfiguration"
    using wellFormed_empty by (simp add: phasesOk_def wellFormed_def)
  from constructPhases_ok [OF c this] show ?thesis
    by (simp add: phasesOk_def sameButPhases_def wellFormed_def emptyConfiguration_def
        commandsOk_def)
qed

definition declaredCommandNames :: "ICommandLineJson option \<Rightarrow> string set" where
  "declaredCommandNames commandLineJson =
     (case Option.bind commandLineJson clj_commands of
        None \<Rightarrow> {}
      | Some commandsJson \<Rightarrow> set (map cj_name commandsJson))"

lemma constructCommands_ok:
  assumes c: "constructCommands commandLineJson this1 = Inr s"
    and wf: "wellFormed this1" and e: "commands this1 = []"
  shows "wellFormed (fst s) \<and> buildPhasesTracked s
       \<and> fst ` set (commands (fst s)) = declaredCommandNames commandLineJson"
proof (cases "Option.bind commandLineJson clj_commands")
  case None
  with c have "s = (this1, None)" by (simp add: constructCommands_def)
  with wf e None show ?thesis
    by (simp add: buildPhasesTracked_def declaredCommandNames_def)
next
  case (Some commandsJson)
  with c have p: "processCommands commandsJson (this1, None) = Inr s"
    by (simp add: constructCommands_def)
  have "buildPhasesTracked (this1, None)"
    using e by (simp add: buildPhasesTracked_def)
  with processCommands_ok [OF p] wf e Some show ?thesis
    by (simp add: declaredCommandNames_def)
qed

lemma newCommandLineConfiguration_wellFormed:
  assumes "newCommandLineConfiguration commandLineJson options = Inr configuration"
  shows "wellFormed configuration"
proof -
  from assms obtain this1 s this3 where st: "phasesStage commandLineJson = Inr this1"
    "constructCommands commandLineJson this1 = Inr s"
    "defaultsStage options s = Inr this3"
    "parametersStage commandLineJson this3 = Inr configuration"
    by (rule newCommandLineConfiguration_InrE)
  from phasesStage_ok [OF st(1)] have 1: "wellFormed this1" "commands this1 = []" by simp_all
  from constructCommands_ok [OF st(2) 1] have 2: "wellFormed (fst s)" "buildPhasesTracked s"
    by simp_all
  have 3: "wellFormed this3"
  proof (cases "truthy (doNotIncludeDefaultBuildCommands options)")
    case True
    with st(3) 2 show ?thesis by (simp add: defaultsStage_def)
  next
    case False
    with st(3) have "addDefaultBuildCommands s = Inr this3" by (simp add: defaultsStage_def)
    from addDefaultBuildCommands_ok [OF this 2] show ?thesis by simp
  qed
  have "sameButParameters this3 configuration"
  proof (cases "Option.bind commandLineJson clj_parameters")
    case None
    with st(4) show ?thesis by (simp add: parametersStage_def sameButParameters_def)
  next
    case (Some parametersJson)
    with st(4) have "processParameters parametersJson this3 = Inr configuration"
      by (simp add: parametersStage_def)
    then show ?thesis by (rule processParameters_frame)
  qed
  with 3 show ?thesis by (simp add: wellFormed_def sameButParameters_def)
qed

section \<open>Properties of constructed configurations\<close>

lemma parametersStage_frame:
  assumes "parametersStage commandLineJson this = Inr this'"
  shows "sameButParameters this this'"
proof (cases "Option.bind commandLineJson clj_parameters")
  case None
  with assms show ?thesis by (simp add: parametersStage_def sameButParameters_def)
next
  case (Some parametersJson)
  with assms have "processParameters parametersJson this = Inr this'"
    by (simp add: parametersStage_def)
  then show ?thesis by (rule processParameters_frame)
qed

subsection \<open>Example configurations\<close>

definition exampleOptions :: ICommandLineConfigurationOptions where
  "exampleOptions = \<lparr>doNotIncludeDefaultBuildCommands = None\<rparr>"

definition commandJson :: "CommandKind \<Rightarrow> string \<Rightarrow> string list \<Rightarrow> CommandJson" where
  "commandJson kind n phaseNames =
     \<lparr>cj_commandKind = kind, cj_name = n, cj_safeForSimultaneousRushProcesses = Some False,
      cj_phases = phaseNames, cj_watchOptions = None, cj_ignoreMissingScript = None,
      cj_allowWarningsInSuccessfulBuild = None, cj_ignoreDependencyOrder = None,
      cj_watchForChanges = None, cj_disableBuildCache = None, cj_incremental = None,
      cj_enableParallelism = Some True\<rparr>"

definition parameterJson :: "string \<Rightarrow> string list \<Rightarrow> string list \<Rightarrow> ParameterJson" where
  "parameterJson n commandNames phaseNames =
     \<lparr>pr_parameterKind = flagParameter, pr_longName = n, pr_alternatives = [],
      pr_defaultValue = None, pr_associatedCommands = Some commandNames,
      pr_associatedPhases = Some phaseNames\<rparr>"

definition exampleJson :: ICommandLineJson where
  "exampleJson =
     \<lparr>clj_phases = Some
        [\<lparr>pj_name = ''_phase:a'', pj_self = Some [''_phase:b''], pj_upstream = Some [''_phase:c''],
          pj_ignoreMissingScript = None, pj_allowWarningsOnSuccess = None\<rparr>,
         \<lparr>pj_name = ''_phase:b'', pj_self = None, pj_upstream = Some [''_phase:a''],
          pj_ignoreMissingScript = None, pj_allowWarningsOnSuccess = None\<rparr>,
         \<lparr>pj_name = ''_phase:c'', pj_self = None, pj_upstream = None,
          pj_ignoreMissingScript = None, pj_allowWarningsOnSuccess = None\<rparr>,
         \<lparr>pj_name = ''_phase:d'', pj_self = None, pj_upstream = None,
          pj_ignoreMissingScript = None, pj_allowWarningsOnSuccess = None\<rparr>],
      clj_commands = Some
        [commandJson phasedCommandKind ''foo'' [''_phase:a''],
         commandJson bulkCommandKind ''bar'' [],
         commandJson globalCommandKind ''baz'' []],
      clj_parameters = Some
        [parameterJson ''--x'' [''foo'', ''bar'', ''build''] [''_phase:a''],
         parameterJson ''--y'' [''baz'', ''rebuild''] []]\<rparr>"

definition exampleConfiguration :: CommandLineConfiguration where
  "exampleConfiguration = projr (newCommandLineConfiguration (Some exampleJson) exampleOptions)"

lemma exampleConfiguration:
  "newCommandLineConfiguration (Some exampleJson) exampleOptions = Inr exampleConfiguration"
proof -
  have "\<not> isl (newCommandLineConfiguration (Some exampleJson) exampleOptions)"
    by code_simp
  then show ?thesis
    unfolding exampleConfiguration_def
    by (cases "newCommandLineConfiguration (Some exampleJson) exampleOptions") simp_all
qed

subsection \<open>The default rebuild command\<close>

text \<open>
  C5: when the configuration declares no command \<open>rebuild\<close> and the default build commands
  are included, a constructed configuration has a synthetic command \<open>rebuild\<close> whose
  \<open>phases\<close> is the same set object (the same address in the store of phase sets) as the
  \<open>phases\<close> of the command \<open>build\<close>, and whose \<open>associatedParameters\<close> is the same set object
  as that of \<open>build\<close>.
\<close>

theorem default_rebuild_shares_build:
  assumes c: "newCommandLineConfiguration commandLineJson options = Inr configuration"
    and nr: "rebuildCommandName \<notin> declaredCommandNames commandLineJson"
    and d: "\<not> truthy (doNotIncludeDefaultBuildCommands options)"
  shows "\<exists>buildCommand rebuildCommand phasesSet.
      map_of (commands configuration) buildCommandName = Some buildCommand
    \<and> map_of (commands configuration) rebuildCommandName = Some rebuildCommand
    \<and> cmd_isSynthetic rebuildCommand
    \<and> cmd_phases rebuildCommand = Some phasesSet
    \<and> cmd_phases buildCommand = Some phasesSet
    \<and> phasesSet < length (phaseSetHeap configuration)
    \<and> cmd_associatedParameters rebuildCommand = cmd_associatedParameters buildCommand"
proof -
  from c obtain this1 s this3 where st: "phasesStage commandLineJson = Inr this1"
    "constructCommands commandLineJson this1 = Inr s"
    "defaultsStage options s = Inr this3"
    "parametersStage commandLineJson this3 = Inr configuration"
    by (rule newCommandLineConfiguration_InrE)
  from phasesStage_ok [OF st(1)] have 1: "wellFormed this1" "commands this1 = []" by simp_all
  from constructCommands_ok [OF st(2) 1] have 2: "wellFormed (fst s)" "buildPhasesTracked s"
    "fst ` set (commands (fst s)) = declaredCommandNames commandLineJson"
    by simp_all
  from 2(3) nr have none: "map_of (commands (fst s)) rebuildCommandName = None"
    by (simp add: map_of_eq_None_iff)
  from st(3) d have "addDefaultBuildCommands s = Inr this3" by (simp add: defaultsStage_def)
  from addDefaultBuildCommands_ok [OF this 2(1,2)] none
  obtain buildCommand rebuildCommand where
    b: "map_of (commands this3) buildCommandName = Some buildCommand"
    "map_of (commands this3) rebuildCommandName = Some rebuildCommand"
    "cmd_isSynthetic rebuildCommand" "cmd_commandKind rebuildCommand = phasedCommandKind"
    "cmd_phases rebuildCommand = cmd_phases buildCommand"
    "cmd_associatedParameters rebuildCommand = cmd_associatedParameters buildCommand"
    by blast
  from parametersStage_frame [OF st(4)] have same: "commands configuration = commands this3"
    "phaseSetHeap configuration = phaseSetHeap this3"
    by (simp_all add: sameButParameters_def)
  from newCommandLineConfiguration_wellFormed [OF c]
  have "commandsOk (phaseHeap configuration) (phaseSetHeap configuration) (commands configuration)"
    by (simp add: wellFormed_def)
  moreover from b(2) same have "(rebuildCommandName, rebuildCommand) \<in> set (commands configuration)"
    by (auto dest: map_of_SomeD)
  ultimately have "commandOk (phaseHeap configuration) (phaseSetHeap configuration) rebuildCommand"
    by (auto simp: commandsOk_def)
  with b(4) obtain phasesSet where p: "cmd_phases rebuildCommand = Some phasesSet"
    "phasesSet < length (phaseSetHeap configuration)"
    by (auto simp: commandOk_def phaseSetOk_def)
  from p(1) b(5) have "cmd_phases buildCommand = Some phasesSet" by simp
  with b(1,2,3,6) p same(1) show ?thesis by simp
qed

theorem default_rebuild_shares_build_witness:
  "rebuildCommandName \<notin> declaredCommandNames (Some exampleJson)
   \<and> \<not> truthy (doNotIncludeDefaultBuildCommands exampleOptions)
   \<and> newCommandLineConfiguration (Some exampleJson) exampleOptions = Inr exampleConfiguration
   \<and> map_option cmd_phases (map_of (commands exampleConfiguration) buildCommandName) = Some (Some 4)
   \<and> map_option cmd_phases (map_of (commands exampleConfiguration) rebuildCommandName) = Some (Some 4)
   \<and> map_option cmd_associatedParameters (map_of (commands exampleConfiguration) buildCommandName)
       = Some 3
   \<and> map_option cmd_associatedParameters (map_of (commands exampleConfiguration) rebuildCommandName)
       = Some 3"
proof -
  have nr: "rebuildCommandName \<notin> declaredCommandNames (Some exampleJson)"
    by (simp add: declaredCommandNames_def exampleJson_def commandJson_def rebuildCommandName_def)
  have d: "\<not> truthy (doNotIncludeDefaultBuildCommands exampleOptions)"
    by (simp add: exampleOptions_def truthy_def)
  have e: "map_option cmd_phases (map_of (commands exampleConfiguration) buildCommandName) = Some (Some 4)"
    "map_option cmd_associatedParameters (map_of (commands exampleConfiguration) buildCommandName) = Some 3"
    unfolding exampleConfiguration_def by code_simp+
  from default_rebuild_shares_build [OF exampleConfiguration nr d]
  obtain buildCommand rebuildCommand phasesSet where
    "map_of (commands exampleConfiguration) buildCommandName = Some buildCommand"
    "map_of (commands exampleConfiguration) rebuildCommandName = Some rebuildCommand"
    "cmd_phases rebuildCommand = Some phasesSet" "cmd_phases buildCommand = Some phasesSet"
    "cmd_associatedParameters rebuildCommand = cmd_associatedParameters buildCommand"
    by blast
  with e nr d exampleConfiguration show ?thesis by simp
qed

subsection \<open>The phases of a phased command\<close>

text \<open>
  C2: in a constructed configuration the set \<open>phases\<close> of every command of phased kind is
  closed under self and upstream dependencies: every dependency of a member is a member.
  For a command declared as phased the set holds a phase of each name in the declared
  list \<open>phases\<close>.
\<close>

theorem phased_command_phases_closed:
  assumes c: "newCommandLineConfiguration commandLineJson options = Inr configuration"
    and m: "map_of (commands configuration) commandName = Some command"
    and k: "cmd_commandKind command = phasedCommandKind"
  shows "\<exists>phasesSet.
      cmd_phases command = Some phasesSet
    \<and> phasesSet < length (phaseSetHeap configuration)
    \<and> (\<forall>phase\<in>set (phaseSetHeap configuration ! phasesSet).
          set (selfOf (phaseHeap configuration) phase)
            \<union> set (upstreamOf (phaseHeap configuration) phase)
          \<subseteq> set (phaseSetHeap configuration ! phasesSet))
    \<and> (\<not> cmd_isSynthetic command \<longrightarrow>
          (\<forall>phaseName\<in>set (cj_phases (cmd_json command)).
             \<exists>phase\<in>set (phaseSetHeap configuration ! phasesSet).
               nameOf (phaseHeap configuration) phase = phaseName))"
proof -
  from newCommandLineConfiguration_wellFormed [OF c]
  have "commandsOk (phaseHeap configuration) (phaseSetHeap configuration) (commands configuration)"
    by (simp add: wellFormed_def)
  moreover from m have "(commandName, command) \<in> set (commands configuration)"
    by (rule map_of_SomeD)
  ultimately have "commandOk (phaseHeap configuration) (phaseSetHeap configuration) command"
    by (auto simp: commandsOk_def)
  with k obtain phasesSet where p: "cmd_phases command = Some phasesSet"
    "phaseSetOk (phaseHeap configuration) (phaseSetHeap configuration) phasesSet"
    "\<not> cmd_isSynthetic command \<longrightarrow>
       (\<forall>n\<in>set (cj_phases (cmd_json command)).
          \<exists>a\<in>set (phaseSetHeap configuration ! phasesSet). nameOf (phaseHeap configuration) a = n)"
    unfolding commandOk_def by blast
  from p(2) have "phasesSet < length (phaseSetHeap configuration)"
    and "\<forall>phase\<in>set (phaseSetHeap configuration ! phasesSet).
          set (selfOf (phaseHeap configuration) phase)
            \<union> set (upstreamOf (phaseHeap configuration) phase)
          \<subseteq> set (phaseSetHeap configuration ! phasesSet)"
    by (simp_all add: phaseSetOk_def closedUnderDependencies_def dependenciesOf_def)
  with p(1,3) show ?thesis by blast
qed

theorem phased_command_phases_closed_witness:
  "newCommandLineConfiguration (Some exampleJson) exampleOptions = Inr exampleConfiguration
   \<and> map_option cmd_commandKind (map_of (commands exampleConfiguration) ''foo'')
       = Some phasedCommandKind
   \<and> map_option cmd_phases (map_of (commands exampleConfiguration) ''foo'') = Some (Some 0)
   \<and> phaseSetHeap exampleConfiguration ! 0 = [0, 1, 2]
   \<and> map (nameOf (phaseHeap exampleConfiguration)) [0, 1, 2]
       = [''_phase:a'', ''_phase:b'', ''_phase:c'']
   \<and> set (selfOf (phaseHeap exampleConfiguration) 0)
       \<union> set (upstreamOf (phaseHeap exampleConfiguration) 0) \<subseteq> {0, 1, 2}"
proof -
  have e: "map_option cmd_commandKind (map_of (commands exampleConfiguration) ''foo'')
       = Some phasedCommandKind"
    "map_option cmd_phases (map_of (commands exampleConfiguration) ''foo'') = Some (Some 0)"
    "phaseSetHeap exampleConfiguration ! 0 = [0, 1, 2]"
    "map (nameOf (phaseHeap exampleConfiguration)) [0, 1, 2]
       = [''_phase:a'', ''_phase:b'', ''_phase:c'']"
    unfolding exampleConfiguration_def by code_simp+
  from e(1,2) obtain command where m: "map_of (commands exampleConfiguration) ''foo'' = Some command"
    and k: "cmd_commandKind command = phasedCommandKind" and p: "cmd_phases command = Some 0"
    by auto
  from phased_command_phases_closed [OF exampleConfiguration m k] p e(3)
  have "set (selfOf (phaseHeap exampleConfiguration) 0)
       \<union> set (upstreamOf (phaseHeap exampleConfiguration) 0) \<subseteq> {0, 1, 2}"
    by auto
  with e exampleConfiguration show ?thesis by simp
qed

subsection \<open>Loading a file that may be absent\<close>

text \<open>
  C10: \<open>tryLoadFromFile\<close> returns \<open>undefined\<close> exactly when loading fails with the error of
  a file that does not exist; every other error of loading, of the schema or of the
  constructor goes to the caller; a configuration that is returned was constructed with
  \<open>doNotIncludeDefaultBuildCommands\<close> set, and its commands are exactly the declared ones:
  no default \<open>build\<close> or \<open>rebuild\<close> is added.
\<close>

theorem tryLoadFromFile_results:
  "(tryLoadFromFile outcome = Inr None \<longleftrightarrow> (\<exists>e. outcome = LoadThrows True e))
   \<and> (\<forall>e. outcome = LoadThrows False e
          \<longrightarrow> tryLoadFromFile outcome = Inl (LoadAndValidateError e))
   \<and> (\<forall>commandLineJson. outcome = LoadReturns commandLineJson \<longrightarrow>
         (case newCommandLineConfiguration (Some commandLineJson)
                 \<lparr>doNotIncludeDefaultBuildCommands = Some True\<rparr> of
            Inl e \<Rightarrow> tryLoadFromFile outcome = Inl e
          | Inr configuration \<Rightarrow>
              tryLoadFromFile outcome = Inr (Some configuration)
            \<and> fst ` set (commands configuration) = declaredCommandNames (Some commandLineJson)))"
proof (intro conjI allI impI)
  show "tryLoadFromFile outcome = Inr None \<longleftrightarrow> (\<exists>e. outcome = LoadThrows True e)"
    by (cases outcome) (auto simp: tryLoadFromFile_def split: sum.splits)
next
  fix e assume "outcome = LoadThrows False e"
  then show "tryLoadFromFile outcome = Inl (LoadAndValidateError e)"
    by (simp add: tryLoadFromFile_def)
next
  fix commandLineJson assume o: "outcome = LoadReturns commandLineJson"
  let ?options = "\<lparr>doNotIncludeDefaultBuildCommands = Some True\<rparr>"
  show "case newCommandLineConfiguration (Some commandLineJson) ?options of
      Inl e \<Rightarrow> tryLoadFromFile outcome = Inl e
    | Inr configuration \<Rightarrow>
        tryLoadFromFile outcome = Inr (Some configuration)
      \<and> fst ` set (commands configuration) = declaredCommandNames (Some commandLineJson)"
  proof (cases "newCommandLineConfiguration (Some commandLineJson) ?options")
    case (Inl e)
    with o show ?thesis by (simp add: tryLoadFromFile_def)
  next
    case (Inr configuration)
    then obtain this1 s this3 where st: "phasesStage (Some commandLineJson) = Inr this1"
      "constructCommands (Some commandLineJson) this1 = Inr s"
      "defaultsStage ?options s = Inr this3"
      "parametersStage (Some commandLineJson) this3 = Inr configuration"
      by (rule newCommandLineConfiguration_InrE)
    from phasesStage_ok [OF st(1)] have 1: "wellFormed this1" "commands this1 = []" by simp_all
    from constructCommands_ok [OF st(2) 1]
    have 2: "fst ` set (commands (fst s)) = declaredCommandNames (Some commandLineJson)"
      by simp
    from st(3) have "this3 = fst s" by (simp add: defaultsStage_def truthy_def)
    moreover from parametersStage_frame [OF st(4)] have "commands configuration = commands this3"
      by (simp add: sameButParameters_def)
    ultimately have "fst ` set (commands configuration) = declaredCommandNames (Some commandLineJson)"
      using 2 by simp
    with Inr o show ?thesis by (simp add: tryLoadFromFile_def)
  qed
qed

definition pluginJson :: ICommandLineJson where
  "pluginJson =
     \<lparr>clj_phases = None,
      clj_commands = Some [commandJson globalCommandKind ''baz'' []],
      clj_parameters = None\<rparr>"

definition pluginConfiguration :: CommandLineConfiguration where
  "pluginConfiguration =
     projr (newCommandLineConfiguration (Some pluginJson)
              \<lparr>doNotIncludeDefaultBuildCommands = Some True\<rparr>)"

theorem tryLoadFromFile_results_witness:
  "tryLoadFromFile (LoadThrows True ''ENOENT'') = Inr None
   \<and> tryLoadFromFile (LoadThrows False ''EACCES'') = Inl (LoadAndValidateError ''EACCES'')
   \<and> tryLoadFromFile (LoadReturns pluginJson) = Inr (Some pluginConfiguration)
   \<and> fst ` set (commands pluginConfiguration) = {''baz''}"
proof -
  let ?r = "newCommandLineConfiguration (Some pluginJson)
      \<lparr>doNotIncludeDefaultBuildCommands = Some True\<rparr>"
  have "\<not> isl ?r" by code_simp
  then have r: "?r = Inr pluginConfiguration"
    unfolding pluginConfiguration_def by (cases ?r) simp_all
  have d: "declaredCommandNames (Some pluginJson) = {''baz''}"
    by (simp add: declaredCommandNames_def pluginJson_def commandJson_def)
  from tryLoadFromFile_results [of "LoadReturns pluginJson"] r d
  have c: "tryLoadFromFile (LoadReturns pluginJson) = Inr (Some pluginConfiguration)
      \<and> fst ` set (commands pluginConfiguration) = {''baz''}"
    by simp
  from tryLoadFromFile_results [of "LoadThrows True ''ENOENT''"]
  have a: "tryLoadFromFile (LoadThrows True ''ENOENT'') = Inr None" by blast
  from tryLoadFromFile_results [of "LoadThrows False ''EACCES''"]
  have b: "tryLoadFromFile (LoadThrows False ''EACCES'') = Inl (LoadAndValidateError ''EACCES'')"
    by blast
  from a b c show ?thesis by simp
qed

subsection \<open>The names of the registered phases\<close>

lemma stripPrefix_Some: "stripPrefix p n = Some r \<Longrightarrow> n = p @ r"
  by (induction p n rule: stripPrefix.induct) (auto split: if_splits)

lemma alnum_not_hyphen: "isLowercase c \<or> isDigit c \<Longrightarrow> c \<noteq> CHR ''-''"
  by (auto simp: isLowercase_def isDigit_def)

lemma matchTail_shape:
  "matchTail h cs \<Longrightarrow>
     (\<forall>c\<in>set cs. isLowercase c \<or> isDigit c \<or> c = CHR ''-'')
     \<and> (cs \<noteq> [] \<longrightarrow> last cs \<noteq> CHR ''-'') \<and> (cs = [] \<longrightarrow> \<not> h)"
proof (induction cs arbitrary: h)
  case Nil
  then show ?case by simp
next
  case (Cons c cs)
  show ?case
  proof (cases "isLowercase c \<or> isDigit c")
    case True
    with Cons.prems have "matchTail False cs" by simp
    from Cons.IH [OF this] True alnum_not_hyphen [OF True] show ?thesis by auto
  next
    case False
    with Cons.prems have c: "c = CHR ''-''" and m: "matchTail True cs"
      by (auto split: if_splits)
    from Cons.IH [OF m] c show ?thesis by auto
  qed
qed

lemma matchesPhaseNameRegexp_shape:
  assumes "matchesPhaseNameRegexp prefix n"
  shows "\<exists>rest. n = prefix @ rest \<and> rest \<noteq> [] \<and> isLowercase (hd rest)
      \<and> (\<forall>c\<in>set rest. isLowercase c \<or> isDigit c \<or> c = CHR ''-'')
      \<and> last rest \<noteq> CHR ''-''"
proof -
  from assms obtain c cs where s: "stripPrefix prefix n = Some (c # cs)"
    and l: "isLowercase c" and m: "matchTail False cs"
    by (auto simp: matchesPhaseNameRegexp_def split: option.splits list.splits)
  from stripPrefix_Some [OF s] have n: "n = prefix @ c # cs" .
  from matchTail_shape [OF m] l alnum_not_hyphen [of c]
  have "(\<forall>x\<in>set (c # cs). isLowercase x \<or> isDigit x \<or> x = CHR ''-'')"
    and "last (c # cs) \<noteq> CHR ''-''"
    by auto
  with n l show ?thesis by (intro exI [of _ "c # cs"]) simp
qed

text \<open>
  C8, as stated, fails for synthetic phases.  With no configuration file the constructor
  translates the default command \<open>build\<close>; its synthetic phase is registered under the name
  \<open>build\<close>, which does not carry the prefix.
\<close>

definition defaultConfiguration :: CommandLineConfiguration where
  "defaultConfiguration = projr (newCommandLineConfiguration None exampleOptions)"

theorem synthetic_phase_name_counterexample:
  "newCommandLineConfiguration None exampleOptions = Inr defaultConfiguration
   \<and> map_of (phases defaultConfiguration) ''build'' = Some 0
   \<and> ph_name (phaseHeap defaultConfiguration ! 0) = ''build''
   \<and> \<not> matchesPhaseNameRegexp phaseNamePrefix ''build''"
proof -
  let ?r = "newCommandLineConfiguration None exampleOptions"
  have "\<not> isl ?r" by code_simp
  then have r: "?r = Inr defaultConfiguration"
    unfolding defaultConfiguration_def by (cases ?r) simp_all
  have "map_of (phases defaultConfiguration) ''build'' = Some 0"
    "ph_name (phaseHeap defaultConfiguration ! 0) = ''build''"
    "\<not> matchesPhaseNameRegexp phaseNamePrefix ''build''"
    unfolding defaultConfiguration_def by code_simp+
  with r show ?thesis by simp
qed

text \<open>
  C8, amended: in a constructed configuration no two phases of the registry share a name,
  every phase is registered under its own name, and the name of every phase that is not
  synthetic matches the pattern: the prefix, then a nonempty rest of lowercase letters,
  digits and hyphens that starts with a letter and does not end with a hyphen.
\<close>

theorem registered_phase_names:
  assumes c: "newCommandLineConfiguration commandLineJson options = Inr configuration"
  shows "distinct (map (\<lambda>(phaseName, phase). ph_name (phaseHeap configuration ! phase))
                    (phases configuration))
    \<and> (\<forall>(phaseName, phase)\<in>set (phases configuration).
          phase < length (phaseHeap configuration)
        \<and> ph_name (phaseHeap configuration ! phase) = phaseName
        \<and> (\<not> ph_isSynthetic (phaseHeap configuration ! phase) \<longrightarrow>
             matchesPhaseNameRegexp phaseNamePrefix phaseName
           \<and> (\<exists>rest. phaseName = phaseNamePrefix @ rest \<and> rest \<noteq> []
                \<and> isLowercase (hd rest)
                \<and> (\<forall>c\<in>set rest. isLowercase c \<or> isDigit c \<or> c = CHR ''-'')
                \<and> last rest \<noteq> CHR ''-'')))"
proof -
  from newCommandLineConfiguration_wellFormed [OF c]
  have ro: "registryOk (phaseHeap configuration) (phases configuration)"
    by (simp add: wellFormed_def)
  then have names: "map (\<lambda>(phaseName, phase). ph_name (phaseHeap configuration ! phase))
      (phases configuration) = map fst (phases configuration)"
    by (intro map_cong) (auto simp: registryOk_def)
  from ro have "distinct (map fst (phases configuration))" by (simp add: registryOk_def)
  then have d: "distinct (map (\<lambda>(phaseName, phase). ph_name (phaseHeap configuration ! phase))
      (phases configuration))"
    unfolding names .
  have "\<forall>(phaseName, phase)\<in>set (phases configuration).
          phase < length (phaseHeap configuration)
        \<and> ph_name (phaseHeap configuration ! phase) = phaseName
        \<and> (\<not> ph_isSynthetic (phaseHeap configuration ! phase) \<longrightarrow>
             matchesPhaseNameRegexp phaseNamePrefix phaseName
           \<and> (\<exists>rest. phaseName = phaseNamePrefix @ rest \<and> rest \<noteq> []
                \<and> isLowercase (hd rest)
                \<and> (\<forall>c\<in>set rest. isLowercase c \<or> isDigit c \<or> c = CHR ''-'')
                \<and> last rest \<noteq> CHR ''-''))"
  proof (clarify, intro conjI impI)
    fix phaseName phase assume e: "(phaseName, phase) \<in> set (phases configuration)"
    with ro show "phase < length (phaseHeap configuration)"
      and "ph_name (phaseHeap configuration ! phase) = phaseName"
      by (auto simp: registryOk_def)
    assume "\<not> ph_isSynthetic (phaseHeap configuration ! phase)"
    with ro e show m: "matchesPhaseNameRegexp phaseNamePrefix phaseName"
      by (auto simp: registryOk_def)
    from matchesPhaseNameRegexp_shape [OF m]
    show "\<exists>rest. phaseName = phaseNamePrefix @ rest \<and> rest \<noteq> []
        \<and> isLowercase (hd rest)
        \<and> (\<forall>c\<in>set rest. isLowercase c \<or> isDigit c \<or> c = CHR ''-'')
        \<and> last rest \<noteq> CHR ''-''" .
  qed
  with d show ?thesis by blast
qed

theorem registered_phase_names_witness:
  "newCommandLineConfiguration (Some exampleJson) exampleOptions = Inr exampleConfiguration
   \<and> map (\<lambda>(phaseName, phase). (phaseName, ph_isSynthetic (phaseHeap exampleConfiguration ! phase)))
        (phases exampleConfiguration)
      = [(''_phase:a'', False), (''_phase:b'', False), (''_phase:c'', False),
         (''_phase:d'', False), (''bar'', True), (''build'', True)]
   \<and> distinct (map (\<lambda>(phaseName, phase). ph_name (phaseHeap exampleConfiguration ! phase))
                  (phases exampleConfiguration))
   \<and> matchesPhaseNameRegexp phaseNamePrefix ''_phase:a''"
proof -
  have e: "map (\<lambda>(phaseName, phase). (phaseName, ph_isSynthetic (phaseHeap exampleConfiguration ! phase)))
        (phases exampleConfiguration)
      = [(''_phase:a'', False), (''_phase:b'', False), (''_phase:c'', False),
         (''_phase:d'', False), (''bar'', True), (''build'', True)]"
    unfolding exampleConfiguration_def by code_simp
  have m: "map_of (phases exampleConfiguration) ''_phase:a'' = Some 0"
    "\<not> ph_isSynthetic (phaseHeap exampleConfiguration ! 0)"
    unfolding exampleConfiguration_def by code_simp+
  from m(1) have "(''_phase:a'', 0) \<in> set (phases exampleConfiguration)"
    by (rule map_of_SomeD)
  with registered_phase_names [OF exampleConfiguration] m(2) e exampleConfiguration
  show ?thesis by blast
qed

subsection \<open>The commands build and rebuild\<close>

lemma normalizeCommand_fields:
  assumes "normalizeCommand command this = Inr (c, this')"
  shows "cmd_json c = command
    \<and> (cmd_commandKind c = globalCommandKind \<longleftrightarrow> cj_commandKind command = globalCommandKind)"
proof (cases "cj_commandKind command")
  case bulkCommandKind
  with assms show ?thesis
    by (auto simp: normalizeCommand_def translateBulkCommandToPhasedCommand_def Let_def)
next
  case globalCommandKind
  with assms show ?thesis
    by (auto simp: normalizeCommand_def normalizeGlobalCommand_def)
next
  case phasedCommandKind
  with assms show ?thesis
    by (auto simp: normalizeCommand_def normalizePhasedCommand_def split: sum.splits prod.splits)
qed

text \<open>
  A declared command that breaks a rule of the commands \<open>build\<close> and \<open>rebuild\<close>, and the
  error of the check: the rule on the kind is tested before the rule on
  \<open>safeForSimultaneousRushProcesses\<close>.
\<close>

definition violatesBuildRules :: "CommandJson \<Rightarrow> bool" where
  "violatesBuildRules command =
     ((cj_name command = buildCommandName \<or> cj_name command = rebuildCommandName)
      \<and> (cj_commandKind command = globalCommandKind
           \<or> cj_safeForSimultaneousRushProcesses command = Some True))"

definition buildRuleError :: "CommandJson \<Rightarrow> Error" where
  "buildRuleError command =
     (if cj_commandKind command = globalCommandKind
        then BuildCommandKindGlobal (cj_name command)
      else BuildCommandSafeForSimultaneous (cj_name command))"

lemma processCommand_violation:
  assumes v: "violatesBuildRules command"
  shows "\<exists>e. processCommand command s = Inl e"
    and "map_of (commands (fst s)) (cj_name command) = None
      \<Longrightarrow> normalizeCommand command (fst s) = Inr (c, this')
      \<Longrightarrow> processCommand command s = Inl (buildRuleError command)"
proof -
  have b: "processCommand command s = Inl (buildRuleError command)"
    if d: "map_of (commands (fst s)) (cj_name command) = None"
      and n: "normalizeCommand command (fst s) = Inr (c, this')" for c this'
  proof -
    from normalizeCommand_fields [OF n] have f: "cmd_name c = cj_name command"
      "cmd_commandKind c = globalCommandKind \<longleftrightarrow> cj_commandKind command = globalCommandKind"
      by (simp_all add: cmd_name_def)
    with v have "checkBuildCommand command c (snd s) = Inl (buildRuleError command)"
      by (auto simp: checkBuildCommand_def violatesBuildRules_def buildRuleError_def truthy_def)
    with d n show ?thesis by (simp add: processCommand_def)
  qed
  then show "map_of (commands (fst s)) (cj_name command) = None
      \<Longrightarrow> normalizeCommand command (fst s) = Inr (c, this')
      \<Longrightarrow> processCommand command s = Inl (buildRuleError command)" .
  show "\<exists>e. processCommand command s = Inl e"
  proof (cases "map_of (commands (fst s)) (cj_name command) = None")
    case False
    then show ?thesis by (simp add: processCommand_def)
  next
    case True
    show ?thesis
    proof (cases "normalizeCommand command (fst s)")
      case (Inl e)
      with True show ?thesis by (simp add: processCommand_def)
    next
      case (Inr r)
      obtain c this' where "r = (c, this')" by (cases r)
      with Inr b [OF True] show ?thesis by blast
    qed
  qed
qed

lemma processCommands_violation:
  "command \<in> set commandsJson \<Longrightarrow> violatesBuildRules command
     \<Longrightarrow> \<exists>e. processCommands commandsJson s = Inl e"
proof (induction commandsJson arbitrary: s)
  case Nil
  then show ?case by simp
next
  case (Cons first rest)
  show ?case
  proof (cases "processCommand first s")
    case (Inl e)
    then show ?thesis by simp
  next
    case (Inr s')
    with processCommand_violation(1) [of first s] have "\<not> violatesBuildRules first" by auto
    with Cons.prems have "command \<in> set rest" by auto
    from Cons.IH [OF this Cons.prems(2), of s'] Inr show ?thesis by simp
  qed
qed

lemma processCommands_append:
  "processCommands (before @ rest) s =
     (case processCommands before s of Inl e \<Rightarrow> Inl e | Inr s' \<Rightarrow> processCommands rest s')"
  by (induction before arbitrary: s) (auto split: sum.splits)

text \<open>
  C4, amended: a configuration that declares a command \<open>build\<close> or \<open>rebuild\<close> of global kind,
  or with \<open>safeForSimultaneousRushProcesses\<close> set to true, is never constructed: the
  constructor throws.  The error is the one of the violated rule, naming the command, when
  the constructor reaches the check of that command: the phases are constructed, the
  commands listed before it are processed, its name is not yet taken and its
  normalization (for a phased command, the lookup of its phases) succeeds.
\<close>

theorem build_rebuild_rules:
  assumes v: "violatesBuildRules command"
    and j: "clj_commands commandLineJson = Some commandsJson"
    and m: "command \<in> set commandsJson"
  shows "(\<exists>e. newCommandLineConfiguration (Some commandLineJson) options = Inl e)
    \<and> (\<forall>before rest this1 s c this'.
          commandsJson = before @ command # rest
          \<longrightarrow> phasesStage (Some commandLineJson) = Inr this1
          \<longrightarrow> processCommands before (this1, None) = Inr s
          \<longrightarrow> map_of (commands (fst s)) (cj_name command) = None
          \<longrightarrow> normalizeCommand command (fst s) = Inr (c, this')
          \<longrightarrow> newCommandLineConfiguration (Some commandLineJson) options
                = Inl (buildRuleError command))"
proof (intro conjI allI impI)
  show "\<exists>e. newCommandLineConfiguration (Some commandLineJson) options = Inl e"
  proof (cases "phasesStage (Some commandLineJson)")
    case (Inl e)
    then show ?thesis by (simp add: newCommandLineConfiguration_def)
  next
    case (Inr this1)
    from processCommands_violation [OF m v, of "(this1, None)"] obtain e
      where "processCommands commandsJson (this1, None) = Inl e" by blast
    with j have "constructCommands (Some commandLineJson) this1 = Inl e"
      by (simp add: constructCommands_def)
    with Inr show ?thesis by (simp add: newCommandLineConfiguration_def)
  qed
next
  fix before rest this1 s c this'
  assume a: "commandsJson = before @ command # rest"
    "phasesStage (Some commandLineJson) = Inr this1"
    "processCommands before (this1, None) = Inr s"
    "map_of (commands (fst s)) (cj_name command) = None"
    "normalizeCommand command (fst s) = Inr (c, this')"
  from processCommand_violation(2) [OF v a(4,5)]
  have "processCommand command s = Inl (buildRuleError command)" .
  with a(1,3) have "processCommands commandsJson (this1, None) = Inl (buildRuleError command)"
    by (simp add: processCommands_append)
  with j have "constructCommands (Some commandLineJson) this1 = Inl (buildRuleError command)"
    by (simp add: constructCommands_def)
  with a(2) show "newCommandLineConfiguration (Some commandLineJson) options
      = Inl (buildRuleError command)"
    by (simp add: newCommandLineConfiguration_def)
qed

text \<open>
  C4, as stated, fails when another error comes first: a phased command \<open>build\<close> with
  \<open>safeForSimultaneousRushProcesses\<close> set to true that lists a phase which does not exist is
  rejected for the phase; the error does not name the violated rule.
\<close>

definition commandsOnlyJson :: "CommandJson list \<Rightarrow> ICommandLineJson" where
  "commandsOnlyJson commandsJson =
     \<lparr>clj_phases = None, clj_commands = Some commandsJson, clj_parameters = None\<rparr>"

definition safeBuildJson :: CommandJson where
  "safeBuildJson =
     (commandJson phasedCommandKind ''build'' [''_phase:x''])
       \<lparr>cj_safeForSimultaneousRushProcesses := Some True\<rparr>"

theorem build_rebuild_rules_counterexample:
  "violatesBuildRules safeBuildJson
   \<and> newCommandLineConfiguration (Some (commandsOnlyJson [safeBuildJson])) exampleOptions
       = Inl (CommandPhaseDoesNotExist ''build'' ''_phase:x'')"
  by (rule conjI) code_simp+

theorem build_rebuild_rules_witness:
  "violatesBuildRules (commandJson globalCommandKind ''rebuild'' [])
   \<and> newCommandLineConfiguration
        (Some (commandsOnlyJson [commandJson bulkCommandKind ''test'' [],
                                 commandJson globalCommandKind ''rebuild'' []]))
        exampleOptions
       = Inl (BuildCommandKindGlobal ''rebuild'')"
proof -
  let ?c = "commandJson globalCommandKind ''rebuild'' []"
  let ?before = "[commandJson bulkCommandKind ''test'' []]"
  let ?json = "commandsOnlyJson (?before @ ?c # [])"
  let ?s = "projr (processCommands ?before (emptyConfiguration, None))"
  let ?n = "projr (normalizeCommand ?c (fst ?s))"
  have v: "violatesBuildRules ?c" by code_simp
  have j: "clj_commands ?json = Some (?before @ ?c # [])" by (simp add: commandsOnlyJson_def)
  have p: "phasesStage (Some ?json) = Inr emptyConfiguration"
    by (simp add: phasesStage_def commandsOnlyJson_def)
  have "\<not> isl (processCommands ?before (emptyConfiguration, None))" by code_simp
  then have b: "processCommands ?before (emptyConfiguration, None) = Inr ?s"
    by (cases "processCommands ?before (emptyConfiguration, None)") simp_all
  have d: "map_of (commands (fst ?s)) (cj_name ?c) = None" by code_simp
  have "\<not> isl (normalizeCommand ?c (fst ?s))" by code_simp
  then have n: "normalizeCommand ?c (fst ?s) = Inr (fst ?n, snd ?n)"
    by (cases "normalizeCommand ?c (fst ?s)") simp_all
  have e: "buildRuleError ?c = BuildCommandKindGlobal ''rebuild''" by code_simp
  have m: "?c \<in> set (?before @ ?c # [])" by simp
  note r = build_rebuild_rules [OF v j m, of exampleOptions, THEN conjunct2, rule_format,
      OF refl p b d n]
  with e have "newCommandLineConfiguration (Some ?json) exampleOptions
      = Inl (BuildCommandKindGlobal ''rebuild'')"
    by (simp only:)
  with v show ?thesis by simp
qed

section \<open>The association of parameters\<close>

text \<open>
  The names that the first loop pushes to \<open>associatedPhases\<close>: for each associated command,
  in order, the name of its synthetic phase when it is a translated bulk command.
  \<open>onlyPhasedCommands\<close> is the value of \<open>parameterIsOnlyAssociatedWithPhasedCommands\<close>
  after the loop.
\<close>

definition syntheticPhaseNames :: "CommandLineConfiguration \<Rightarrow> string list \<Rightarrow> string list" where
  "syntheticPhaseNames this names =
     concat (map (\<lambda>n. case map_of (syntheticPhasesByTranslatedBulkCommandName this) n of
                          None \<Rightarrow> []
                        | Some synthetic \<Rightarrow> [nameOf (phaseHeap this) synthetic]) names)"

definition onlyPhasedCommands :: "CommandLineConfiguration \<Rightarrow> string list \<Rightarrow> bool" where
  "onlyPhasedCommands this names =
     (\<forall>n\<in>set names. case map_of (commands this) n of
                         None \<Rightarrow> True
                       | Some c \<Rightarrow> cmd_commandKind c = phasedCommandKind)"

text \<open>One turn of the loop over the associated commands, for a command that exists.\<close>

definition associateCommand :: "nat \<Rightarrow> string \<Rightarrow> Command \<Rightarrow> CommandLineConfiguration \<Rightarrow> CommandLineConfiguration" where
  "associateCommand p n c this =
     addAssociatedParameter p c
       (case map_of (syntheticPhasesByTranslatedBulkCommandName this) n of
          None \<Rightarrow> this
        | Some synthetic \<Rightarrow> pushAssociatedPhase p (nameOf (phaseHeap this) synthetic) this)"

text \<open>
  What the first loop has done to the configuration when it ends without error: nothing
  but the parameter at \<open>p\<close> and the sets of parameters changed; the parameter got the
  synthetic phase names appended; the sets only grew, by \<open>p\<close>, and the set of every
  associated command holds \<open>p\<close>.
\<close>

definition associated :: "nat \<Rightarrow> string list \<Rightarrow> CommandLineConfiguration \<Rightarrow> CommandLineConfiguration \<Rightarrow> bool" where
  "associated p names this this' =
     (sameButParameters this this'
      \<and> length (parameters this') = length (parameters this)
      \<and> (\<forall>q. q \<noteq> p \<longrightarrow> parameters this' ! q = parameters this ! q)
      \<and> np_longName (parameters this' ! p) = np_longName (parameters this ! p)
      \<and> np_associatedCommands (parameters this' ! p) = np_associatedCommands (parameters this ! p)
      \<and> np_associatedPhases (parameters this' ! p)
          = np_associatedPhases (parameters this ! p) @ syntheticPhaseNames this names
      \<and> length (parameterSetHeap this') = length (parameterSetHeap this)
      \<and> (\<forall>a. set (parameterSetHeap this ! a) \<subseteq> set (parameterSetHeap this' ! a))
      \<and> (\<forall>a. set (parameterSetHeap this' ! a) \<subseteq> insert p (set (parameterSetHeap this ! a)))
      \<and> (\<forall>n\<in>set names. \<forall>c. map_of (commands this) n = Some c
            \<longrightarrow> cmd_associatedParameters c < length (parameterSetHeap this)
            \<longrightarrow> p \<in> set (parameterSetHeap this' ! cmd_associatedParameters c)))"

lemma associated_Nil: "associated p [] this this"
  by (auto simp: associated_def sameButParameters_def syntheticPhaseNames_def)

lemma pushAssociatedPhase_facts:
  assumes "p < length (parameters this)"
  shows "sameButParameters this (pushAssociatedPhase p x this)"
    and "length (parameters (pushAssociatedPhase p x this)) = length (parameters this)"
    and "q \<noteq> p \<Longrightarrow> parameters (pushAssociatedPhase p x this) ! q = parameters this ! q"
    and "np_longName (parameters (pushAssociatedPhase p x this) ! p)
          = np_longName (parameters this ! p)"
    and "np_associatedCommands (parameters (pushAssociatedPhase p x this) ! p)
          = np_associatedCommands (parameters this ! p)"
    and "np_associatedPhases (parameters (pushAssociatedPhase p x this) ! p)
          = np_associatedPhases (parameters this ! p) @ [x]"
    and "parameterSetHeap (pushAssociatedPhase p x this) = parameterSetHeap this"
  using assms by (simp_all add: pushAssociatedPhase_def sameButParameters_def)

lemma addAssociatedParameter_facts:
  shows "sameButParameters this (addAssociatedParameter p c this)"
    and "parameters (addAssociatedParameter p c this) = parameters this"
    and "length (parameterSetHeap (addAssociatedParameter p c this)) = length (parameterSetHeap this)"
    and "set (parameterSetHeap this ! a) \<subseteq> set (parameterSetHeap (addAssociatedParameter p c this) ! a)"
    and "set (parameterSetHeap (addAssociatedParameter p c this) ! a)
          \<subseteq> insert p (set (parameterSetHeap this ! a))"
    and "cmd_associatedParameters c < length (parameterSetHeap this)
          \<Longrightarrow> p \<in> set (parameterSetHeap (addAssociatedParameter p c this) ! cmd_associatedParameters c)"
proof -
  show "sameButParameters this (addAssociatedParameter p c this)"
    "parameters (addAssociatedParameter p c this) = parameters this"
    "length (parameterSetHeap (addAssociatedParameter p c this)) = length (parameterSetHeap this)"
    by (simp_all add: addAssociatedParameter_def sameButParameters_def)
  show "cmd_associatedParameters c < length (parameterSetHeap this)
          \<Longrightarrow> p \<in> set (parameterSetHeap (addAssociatedParameter p c this) ! cmd_associatedParameters c)"
    by (simp add: addAssociatedParameter_def)
  show "set (parameterSetHeap this ! a) \<subseteq> set (parameterSetHeap (addAssociatedParameter p c this) ! a)"
  proof (cases "a = cmd_associatedParameters c \<and> a < length (parameterSetHeap this)")
    case True
    then show ?thesis by (auto simp: addAssociatedParameter_def)
  next
    case False
    then have "parameterSetHeap (addAssociatedParameter p c this) ! a = parameterSetHeap this ! a"
      by (cases "a = cmd_associatedParameters c")
        (simp_all add: addAssociatedParameter_def list_update_beyond)
    then show ?thesis by simp
  qed
  show "set (parameterSetHeap (addAssociatedParameter p c this) ! a)
          \<subseteq> insert p (set (parameterSetHeap this ! a))"
  proof (cases "a = cmd_associatedParameters c \<and> a < length (parameterSetHeap this)")
    case True
    then show ?thesis by (auto simp: addAssociatedParameter_def)
  next
    case False
    then have "parameterSetHeap (addAssociatedParameter p c this) ! a = parameterSetHeap this ! a"
      by (cases "a = cmd_associatedParameters c")
        (simp_all add: addAssociatedParameter_def list_update_beyond)
    then show ?thesis by auto
  qed
qed

lemma associated_single:
  assumes p: "p < length (parameters this)" and c: "map_of (commands this) n = Some c"
  shows "associated p [n] this (associateCommand p n c this)"
proof (cases "map_of (syntheticPhasesByTranslatedBulkCommandName this) n")
  case None
  then have e: "associateCommand p n c this = addAssociatedParameter p c this"
    by (simp add: associateCommand_def)
  have s: "syntheticPhaseNames this [n] = []"
    using None by (simp add: syntheticPhaseNames_def)
  show ?thesis
    unfolding associated_def e s
    using addAssociatedParameter_facts [where this = this and p = p and c = c] c by simp
next
  case (Some synthetic)
  let ?x = "nameOf (phaseHeap this) synthetic"
  let ?this1 = "pushAssociatedPhase p ?x this"
  from Some have e: "associateCommand p n c this = addAssociatedParameter p c ?this1"
    by (simp add: associateCommand_def)
  have s: "syntheticPhaseNames this [n] = [?x]"
    using Some by (simp add: syntheticPhaseNames_def)
  note f1 = pushAssociatedPhase_facts [OF p, where x = ?x]
  note f2 = addAssociatedParameter_facts [where this = ?this1 and p = p and c = c]
  show ?thesis
    unfolding associated_def e s
    using f1 f2 c by (simp add: sameButParameters_def)
qed

lemma syntheticPhaseNames_same:
  assumes "sameButParameters this this'"
  shows "syntheticPhaseNames this' names = syntheticPhaseNames this names"
proof -
  from assms have "phaseHeap this' = phaseHeap this"
    "syntheticPhasesByTranslatedBulkCommandName this'
      = syntheticPhasesByTranslatedBulkCommandName this"
    by (simp_all add: sameButParameters_def)
  then show ?thesis by (simp add: syntheticPhaseNames_def cong: option.case_cong)
qed

lemma associated_trans:
  assumes a: "associated p xs this this1" and b: "associated p ys this1 this2"
  shows "associated p (xs @ ys) this this2"
proof -
  from a have s1: "sameButParameters this this1" by (simp add: associated_def)
  from b have s2: "sameButParameters this1 this2" by (simp add: associated_def)
  from s1 have cm: "commands this1 = commands this" by (simp add: sameButParameters_def)
  from a have l1: "length (parameterSetHeap this1) = length (parameterSetHeap this)"
    by (simp add: associated_def)
  have names: "syntheticPhaseNames this (xs @ ys)
      = syntheticPhaseNames this xs @ syntheticPhaseNames this1 ys"
    unfolding syntheticPhaseNames_same [OF s1] by (simp add: syntheticPhaseNames_def)
  have sub: "\<forall>a. set (parameterSetHeap this ! a) \<subseteq> set (parameterSetHeap this2 ! a)"
    using a b unfolding associated_def by blast
  have sup: "\<forall>a. set (parameterSetHeap this2 ! a) \<subseteq> insert p (set (parameterSetHeap this ! a))"
    using a b unfolding associated_def by blast
  have mem: "\<forall>n\<in>set (xs @ ys). \<forall>c. map_of (commands this) n = Some c
      \<longrightarrow> cmd_associatedParameters c < length (parameterSetHeap this)
      \<longrightarrow> p \<in> set (parameterSetHeap this2 ! cmd_associatedParameters c)"
  proof (intro ballI allI impI)
    fix n c assume n: "n \<in> set (xs @ ys)" and c: "map_of (commands this) n = Some c"
      and v: "cmd_associatedParameters c < length (parameterSetHeap this)"
    show "p \<in> set (parameterSetHeap this2 ! cmd_associatedParameters c)"
    proof (cases "n \<in> set xs")
      case True
      with a c v have "p \<in> set (parameterSetHeap this1 ! cmd_associatedParameters c)"
        unfolding associated_def by blast
      with b show ?thesis unfolding associated_def by blast
    next
      case False
      with n have "n \<in> set ys" by simp
      with b c v cm l1 show ?thesis unfolding associated_def by simp
    qed
  qed
  have rest: "sameButParameters this this2"
    "length (parameters this2) = length (parameters this)"
    "\<forall>q. q \<noteq> p \<longrightarrow> parameters this2 ! q = parameters this ! q"
    "np_longName (parameters this2 ! p) = np_longName (parameters this ! p)"
    "np_associatedCommands (parameters this2 ! p) = np_associatedCommands (parameters this ! p)"
    "np_associatedPhases (parameters this2 ! p)
       = np_associatedPhases (parameters this ! p) @ syntheticPhaseNames this (xs @ ys)"
    "length (parameterSetHeap this2) = length (parameterSetHeap this)"
    using a b unfolding names associated_def sameButParameters_def by simp_all
  with sub sup mem show ?thesis unfolding associated_def by blast
qed

lemma associateCommands_Cons_Some:
  assumes "map_of (commands this) n = Some c"
  shows "associateCommands p (n # rest) (this, h, ph) =
     associateCommands p rest
       (associateCommand p n c this, True, ph \<and> cmd_commandKind c = phasedCommandKind)"
proof (cases "map_of (syntheticPhasesByTranslatedBulkCommandName this) n")
  case None
  with assms show ?thesis by (simp add: associateCommand_def)
next
  case (Some synthetic)
  have "commands (pushAssociatedPhase p x this) = commands this" for x
    by (simp add: pushAssociatedPhase_def)
  with Some assms show ?thesis by (simp add: associateCommand_def)
qed

lemma associateCommands_Cons_None:
  assumes "p < length (parameters this)" and "map_of (commands this) n = None"
  shows "associateCommands p (n # rest) (this, h, ph) =
     Inl (ParameterCommandDoesNotExist (np_longName (parameters this ! p)) n)"
proof (cases "map_of (syntheticPhasesByTranslatedBulkCommandName this) n")
  case None
  with assms show ?thesis by simp
next
  case (Some synthetic)
  have "commands (pushAssociatedPhase p x this) = commands this" for x
    by (simp add: pushAssociatedPhase_def)
  with Some assms pushAssociatedPhase_facts(4) [OF assms(1)] show ?thesis by simp
qed

lemma associateCommands_Inr:
  assumes "p < length (parameters this)"
    and "\<forall>n\<in>set names. map_of (commands this) n \<noteq> None"
  shows "\<exists>this'. associateCommands p names (this, h, ph)
           = Inr (this', h \<or> names \<noteq> [], ph \<and> onlyPhasedCommands this names)
         \<and> associated p names this this'"
  using assms
proof (induction names arbitrary: this h ph)
  case Nil
  then show ?case by (simp add: onlyPhasedCommands_def associated_Nil)
next
  case (Cons n rest)
  from Cons.prems(2) obtain c where c: "map_of (commands this) n = Some c" by auto
  let ?this2 = "associateCommand p n c this"
  from associated_single [OF Cons.prems(1) c] have a1: "associated p [n] this ?this2" .
  then have cm: "commands ?this2 = commands this"
    and pl: "length (parameters ?this2) = length (parameters this)"
    by (simp_all add: associated_def sameButParameters_def)
  from Cons.prems cm pl have "p < length (parameters ?this2)"
    "\<forall>n\<in>set rest. map_of (commands ?this2) n \<noteq> None"
    by simp_all
  from Cons.IH [OF this, of True "ph \<and> cmd_commandKind c = phasedCommandKind"]
  obtain this' where r: "associateCommands p rest
        (?this2, True, ph \<and> cmd_commandKind c = phasedCommandKind)
      = Inr (this', True \<or> rest \<noteq> [],
             (ph \<and> cmd_commandKind c = phasedCommandKind) \<and> onlyPhasedCommands ?this2 rest)"
    and a2: "associated p rest ?this2 this'"
    by blast
  have o: "onlyPhasedCommands this (n # rest)
      \<longleftrightarrow> cmd_commandKind c = phasedCommandKind \<and> onlyPhasedCommands ?this2 rest"
    using c cm by (simp add: onlyPhasedCommands_def)
  from associated_trans [OF a1 a2] have "associated p (n # rest) this this'" by simp
  with r o show ?case
    unfolding associateCommands_Cons_Some [OF c] by auto
qed

lemma associateCommands_Inl:
  assumes "p < length (parameters this)"
    and "\<exists>n\<in>set names. map_of (commands this) n = None"
  shows "\<exists>n\<in>set names. map_of (commands this) n = None
       \<and> associateCommands p names (this, h, ph)
           = Inl (ParameterCommandDoesNotExist (np_longName (parameters this ! p)) n)"
  using assms
proof (induction names arbitrary: this h ph)
  case Nil
  then show ?case by simp
next
  case (Cons n rest)
  show ?case
  proof (cases "map_of (commands this) n")
    case None
    with associateCommands_Cons_None [OF Cons.prems(1) None] show ?thesis by auto
  next
    case (Some c)
    let ?this2 = "associateCommand p n c this"
    from associated_single [OF Cons.prems(1) Some] have a1: "associated p [n] this ?this2" .
    then have cm: "commands ?this2 = commands this"
      and pl: "length (parameters ?this2) = length (parameters this)"
      and ln: "np_longName (parameters ?this2 ! p) = np_longName (parameters this ! p)"
      by (simp_all add: associated_def sameButParameters_def)
    from Cons.prems Some cm pl have "p < length (parameters ?this2)"
      "\<exists>n\<in>set rest. map_of (commands ?this2) n = None"
      by auto
    from Cons.IH [OF this, of True "ph \<and> cmd_commandKind c = phasedCommandKind"]
    obtain n' where "n' \<in> set rest" "map_of (commands ?this2) n' = None"
      "associateCommands p rest (?this2, True, ph \<and> cmd_commandKind c = phasedCommandKind)
        = Inl (ParameterCommandDoesNotExist (np_longName (parameters ?this2 ! p)) n')"
      by blast
    with cm ln show ?thesis
      unfolding associateCommands_Cons_Some [OF Some] by auto
  qed
qed

lemma checkAssociatedPhases_Inr:
  "\<forall>n\<in>set names. map_of phs n \<noteq> None
     \<Longrightarrow> checkAssociatedPhases phs longName names h = Inr (h \<or> names \<noteq> [])"
  by (induction names arbitrary: h) auto

lemma checkAssociatedPhases_Inl:
  "\<exists>n\<in>set names. map_of phs n = None
     \<Longrightarrow> \<exists>n\<in>set names. map_of phs n = None
           \<and> checkAssociatedPhases phs longName names h = Inl (ParameterPhaseDoesNotExist longName n)"
proof (induction names arbitrary: h)
  case Nil
  then show ?case by simp
next
  case (Cons n rest)
  show ?case
  proof (cases "map_of phs n")
    case None
    then show ?thesis by auto
  next
    case (Some a)
    with Cons.prems have "\<exists>n\<in>set rest. map_of phs n = None" by auto
    from Cons.IH [OF this, of True] Some show ?thesis by auto
  qed
qed

text \<open>
  The outcome of the association of the parameter at address \<open>p\<close>: the names of its
  commands, the names of its phases at the end of the first loop, and the five cases in
  the order of the source.
\<close>

definition finalAssociatedPhases :: "nat \<Rightarrow> CommandLineConfiguration \<Rightarrow> string list" where
  "finalAssociatedPhases p this =
     np_associatedPhases (parameters this ! p)
       @ syntheticPhaseNames this (np_associatedCommands (parameters this ! p))"

lemma associateParameter_result:
  assumes p: "p < length (parameters this)"
  defines "names \<equiv> np_associatedCommands (parameters this ! p)"
    and "longName \<equiv> np_longName (parameters this ! p)"
  shows
    "if \<exists>n\<in>set names. map_of (commands this) n = None then
       \<exists>n\<in>set names. map_of (commands this) n = None
         \<and> associateParameter p this = Inl (ParameterCommandDoesNotExist longName n)
     else if \<exists>n\<in>set (finalAssociatedPhases p this). map_of (phases this) n = None then
       \<exists>n\<in>set (finalAssociatedPhases p this). map_of (phases this) n = None
         \<and> associateParameter p this = Inl (ParameterPhaseDoesNotExist longName n)
     else if names = [] then
       associateParameter p this = Inl (ParameterListsNoAssociatedCommands longName)
     else if onlyPhasedCommands this names \<and> finalAssociatedPhases p this = [] then
       associateParameter p this = Inl (ParameterListsNoAssociatedPhases longName)
     else \<exists>this'. associateParameter p this = Inr this' \<and> associated p names this this'"
proof (cases "\<exists>n\<in>set names. map_of (commands this) n = None")
  case True
  from associateCommands_Inl [OF p, of names False True] True
  obtain n where "n \<in> set names" "map_of (commands this) n = None"
    "associateCommands p names (this, False, True)
      = Inl (ParameterCommandDoesNotExist longName n)"
    unfolding longName_def by blast
  then have "\<exists>n\<in>set names. map_of (commands this) n = None
      \<and> associateParameter p this = Inl (ParameterCommandDoesNotExist longName n)"
    unfolding associateParameter_def names_def by auto
  then show ?thesis unfolding if_P [OF True] .
next
  case False
  then have all: "\<forall>n\<in>set names. map_of (commands this) n \<noteq> None" by simp
  from associateCommands_Inr [OF p all, of False True]
  obtain this1 where r: "associateCommands p names (this, False, True)
      = Inr (this1, names \<noteq> [], onlyPhasedCommands this names)"
    and a: "associated p names this this1"
    by auto
  from a have ph: "phases this1 = phases this"
    and ln: "np_longName (parameters this1 ! p) = longName"
    and fp: "np_associatedPhases (parameters this1 ! p) = finalAssociatedPhases p this"
    by (simp_all add: associated_def sameButParameters_def longName_def names_def
        finalAssociatedPhases_def)
  have unfold: "associateParameter p this =
      (case checkAssociatedPhases (phases this) longName (finalAssociatedPhases p this) False of
         Inl e \<Rightarrow> Inl e
       | Inr hasPhases \<Rightarrow>
           if names = [] then Inl (ParameterListsNoAssociatedCommands longName)
           else if onlyPhasedCommands this names \<and> \<not> hasPhases
             then Inl (ParameterListsNoAssociatedPhases longName)
           else Inr this1)"
    using r ph ln fp unfolding associateParameter_def names_def [symmetric]
    by (simp split: sum.splits)
  show ?thesis
  proof (cases "\<exists>n\<in>set (finalAssociatedPhases p this). map_of (phases this) n = None")
    case True
    from checkAssociatedPhases_Inl [OF True, of longName False]
    obtain n where "n \<in> set (finalAssociatedPhases p this)" "map_of (phases this) n = None"
      "checkAssociatedPhases (phases this) longName (finalAssociatedPhases p this) False
        = Inl (ParameterPhaseDoesNotExist longName n)"
      by blast
    then have "\<exists>n\<in>set (finalAssociatedPhases p this). map_of (phases this) n = None
        \<and> associateParameter p this = Inl (ParameterPhaseDoesNotExist longName n)"
      unfolding unfold by auto
    then show ?thesis unfolding if_not_P [OF False] if_P [OF True] .
  next
    case noMissing: False
    then have "\<forall>n\<in>set (finalAssociatedPhases p this). map_of (phases this) n \<noteq> None"
      by simp
    from checkAssociatedPhases_Inr [OF this, of longName False]
    have c: "checkAssociatedPhases (phases this) longName (finalAssociatedPhases p this) False
        = Inr (finalAssociatedPhases p this \<noteq> [])"
      by simp
    have "if names = [] then
        associateParameter p this = Inl (ParameterListsNoAssociatedCommands longName)
      else if onlyPhasedCommands this names \<and> finalAssociatedPhases p this = [] then
        associateParameter p this = Inl (ParameterListsNoAssociatedPhases longName)
      else \<exists>this'. associateParameter p this = Inr this' \<and> associated p names this this'"
      using a unfolding unfold c by simp
    then show ?thesis unfolding if_not_P [OF False] if_not_P [OF noMissing] .
  qed
qed

lemma associateParameter_Inr:
  assumes p: "p < length (parameters this)"
    and r: "associateParameter p this = Inr this'"
  shows "(\<forall>n\<in>set (np_associatedCommands (parameters this ! p)). map_of (commands this) n \<noteq> None)
    \<and> (\<forall>n\<in>set (finalAssociatedPhases p this). map_of (phases this) n \<noteq> None)
    \<and> np_associatedCommands (parameters this ! p) \<noteq> []
    \<and> \<not> (onlyPhasedCommands this (np_associatedCommands (parameters this ! p))
           \<and> finalAssociatedPhases p this = [])
    \<and> associated p (np_associatedCommands (parameters this ! p)) this this'"
  using associateParameter_result [OF p] r
  by (auto split: if_splits)

text \<open>The parameter loop of the constructor starts the association at the fresh address.\<close>

definition pushed :: "ParameterJson \<Rightarrow> CommandLineConfiguration \<Rightarrow> CommandLineConfiguration" where
  "pushed parameter this = this\<lparr>parameters := parameters this @ [normalizeParameter parameter]\<rparr>"

lemma processParameter_unfold:
  "processParameter parameter this =
     (case validateParameterKind (normalizeParameter parameter) of
        Inl e \<Rightarrow> Inl e
      | Inr u \<Rightarrow> associateParameter (length (parameters this)) (pushed parameter this))"
  by (simp add: processParameter_def pushed_def Let_def split: sum.splits)

lemma pushed_facts:
  "length (parameters this) < length (parameters (pushed parameter this))"
  "parameters (pushed parameter this) ! length (parameters this) = normalizeParameter parameter"
  "commands (pushed parameter this) = commands this"
  "phases (pushed parameter this) = phases this"
  "parameterSetHeap (pushed parameter this) = parameterSetHeap this"
  "sameButParameters this (pushed parameter this)"
  "q < length (parameters this) \<Longrightarrow> parameters (pushed parameter this) ! q = parameters this ! q"
  by (simp_all add: pushed_def sameButParameters_def nth_append)

lemma finalAssociatedPhases_pushed:
  "finalAssociatedPhases (length (parameters this)) (pushed parameter this)
     = np_associatedPhases (normalizeParameter parameter)
         @ syntheticPhaseNames this (np_associatedCommands (normalizeParameter parameter))"
  using syntheticPhaseNames_same [OF pushed_facts(6), of parameter this]
  by (simp add: finalAssociatedPhases_def pushed_facts)

lemma onlyPhasedCommands_pushed:
  "onlyPhasedCommands (pushed parameter this) names = onlyPhasedCommands this names"
  by (simp add: onlyPhasedCommands_def pushed_facts)

subsection \<open>The sets of parameters of the commands are allocated\<close>

definition parameterSetsAllocated :: "CommandLineConfiguration \<Rightarrow> bool" where
  "parameterSetsAllocated this =
     (\<forall>(k, c)\<in>set (commands this). cmd_associatedParameters c < length (parameterSetHeap this))"

lemma parameterSetsAllocated_update:
  assumes "parameterSetsAllocated this"
    and "length (parameterSetHeap this) \<le> n" and "cmd_associatedParameters c < n"
    and "length (parameterSetHeap this') = n"
    and "commands this' = AList.update k c (commands this)"
  shows "parameterSetsAllocated this'"
  unfolding parameterSetsAllocated_def
proof (clarify)
  fix k' c' assume "(k', c') \<in> set (commands this')"
  with assms(5) set_update_subset [of k c "commands this"]
  have "(k', c') = (k, c) \<or> (k', c') \<in> set (commands this)" by auto
  with assms(1-4) show "cmd_associatedParameters c' < length (parameterSetHeap this')"
    by (auto simp: parameterSetsAllocated_def)
qed

lemma normalizeCommand_parameterSet:
  assumes "normalizeCommand command this = Inr (c, this')"
  shows "cmd_associatedParameters c = length (parameterSetHeap this)
    \<and> length (parameterSetHeap this') = Suc (length (parameterSetHeap this))
    \<and> commands this' = commands this"
proof (cases "cj_commandKind command")
  case bulkCommandKind
  with assms show ?thesis
    by (auto simp: normalizeCommand_def translateBulkCommandToPhasedCommand_def Let_def)
next
  case globalCommandKind
  with assms show ?thesis
    by (auto simp: normalizeCommand_def normalizeGlobalCommand_def)
next
  case phasedCommandKind
  with assms show ?thesis
    by (auto simp: normalizeCommand_def normalizePhasedCommand_def split: sum.splits prod.splits)
qed

lemma processCommand_parameterSets:
  assumes p: "processCommand command s = Inr s'" and a: "parameterSetsAllocated (fst s)"
  shows "parameterSetsAllocated (fst s')"
proof -
  from p obtain c this' where n: "normalizeCommand command (fst s) = Inr (c, this')"
    by (auto simp: processCommand_def split: if_splits sum.splits)
  from p n obtain b where
    s': "s' = (this'\<lparr>commands := AList.update (cmd_name c) c (commands this')\<rparr>, b)"
    by (auto simp: processCommand_def split: if_splits sum.splits)
  from normalizeCommand_parameterSet [OF n]
  have f: "cmd_associatedParameters c = length (parameterSetHeap (fst s))"
    "length (parameterSetHeap this') = Suc (length (parameterSetHeap (fst s)))"
    "commands this' = commands (fst s)"
    by simp_all
  show ?thesis
    by (rule parameterSetsAllocated_update [OF a, of "Suc (length (parameterSetHeap (fst s)))" c
          _ "cmd_name c"])
      (simp_all add: s' f)
qed

lemma processCommands_parameterSets:
  "processCommands commandsJson s = Inr s' \<Longrightarrow> parameterSetsAllocated (fst s)
     \<Longrightarrow> parameterSetsAllocated (fst s')"
proof (induction commandsJson arbitrary: s)
  case Nil
  then show ?case by simp
next
  case (Cons command rest)
  from Cons.prems(1) obtain s1 where s1: "processCommand command s = Inr s1"
    and r: "processCommands rest s1 = Inr s'"
    by (auto split: sum.splits)
  from Cons.IH [OF r processCommand_parameterSets [OF s1 Cons.prems(2)]] show ?case .
qed

lemma addDefaultBuildCommands_parameterSets:
  assumes a: "addDefaultBuildCommands s = Inr this'"
    and al: "parameterSetsAllocated (fst s)"
  shows "parameterSetsAllocated this'"
proof -
  obtain buildCommand this1 b where d: "addDefaultBuildCommand s = (buildCommand, this1, b)"
    by (cases "addDefaultBuildCommand s") auto
  have 1: "parameterSetsAllocated this1
      \<and> (\<exists>k. (k, buildCommand) \<in> set (commands this1))"
  proof (cases "map_of (commands (fst s)) buildCommandName")
    case (Some c)
    with d have "buildCommand = c" "this1 = fst s"
      by (simp_all add: addDefaultBuildCommand_def)
    with Some al show ?thesis by (auto dest: map_of_SomeD)
  next
    case None
    let ?t = "translateBulkCommandToPhasedCommand DEFAULT_BUILD_COMMAND_JSON (fst s)"
    let ?bc = "(fst ?t)\<lparr>cmd_disableBuildCache := cj_disableBuildCache DEFAULT_BUILD_COMMAND_JSON\<rparr>"
    from d None have e: "buildCommand = ?bc"
      "this1 = (snd ?t)\<lparr>commands := AList.update (cmd_name ?bc) ?bc (commands (snd ?t))\<rparr>"
      by (auto simp: addDefaultBuildCommand_def Let_def)
    have "normalizeCommand DEFAULT_BUILD_COMMAND_JSON (fst s) = Inr (fst ?t, snd ?t)"
      by (simp add: normalizeCommand_def DEFAULT_BUILD_COMMAND_JSON_def)
    from normalizeCommand_parameterSet [OF this]
    have f: "cmd_associatedParameters ?bc = length (parameterSetHeap (fst s))"
      "length (parameterSetHeap (snd ?t)) = Suc (length (parameterSetHeap (fst s)))"
      "commands (snd ?t) = commands (fst s)"
      by simp_all
    have "parameterSetsAllocated this1"
      by (rule parameterSetsAllocated_update [OF al, of "Suc (length (parameterSetHeap (fst s)))" ?bc
            _ "cmd_name ?bc"])
        (simp_all add: e f)
    moreover have "(cmd_name ?bc, ?bc) \<in> set (commands this1)"
    proof -
      have "map_of (commands this1) (cmd_name ?bc) = Some ?bc"
        unfolding e(2) by (simp add: update_conv')
      then show ?thesis by (rule map_of_SomeD)
    qed
    ultimately show ?thesis using e(1) by blast
  qed
  from a d have r: "addDefaultRebuildCommand (buildCommand, this1, b) = Inr this'"
    by (simp add: addDefaultBuildCommands_def)
  show ?thesis
  proof (cases "map_of (commands this1) rebuildCommandName")
    case (Some c)
    with r have "this' = this1" by (simp add: addDefaultRebuildCommand_def)
    with 1 show ?thesis by simp
  next
    case None
    with r obtain ph where ph: "b = Some ph"
      by (auto simp: addDefaultRebuildCommand_def split: option.splits)
    let ?rc = "defaultRebuildCommand buildCommand ph (length (phaseSetHeap this1))"
    from r None ph have t: "this' = this1\<lparr>phaseSetHeap := phaseSetHeap this1 @ [[]],
        commands := AList.update (cmd_name ?rc) ?rc (commands this1)\<rparr>"
      by (simp add: addDefaultRebuildCommand_def Let_def)
    from 1 have "cmd_associatedParameters buildCommand < length (parameterSetHeap this1)"
      by (auto simp: parameterSetsAllocated_def)
    then have "cmd_associatedParameters ?rc < length (parameterSetHeap this1)"
      by (simp add: defaultRebuildCommand_def)
    with 1 show ?thesis
      by (intro parameterSetsAllocated_update [of this1 "length (parameterSetHeap this1)" ?rc
            this' "cmd_name ?rc"])
        (simp_all add: t)
  qed
qed

lemma beforeParameters_allocated:
  assumes "phasesStage commandLineJson = Inr this1"
    and "constructCommands commandLineJson this1 = Inr s"
    and "defaultsStage options s = Inr this3"
  shows "parameterSetsAllocated this3"
proof -
  from phasesStage_ok [OF assms(1)] have "commands this1 = []" by simp
  then have 1: "parameterSetsAllocated this1" by (simp add: parameterSetsAllocated_def)
  have 2: "parameterSetsAllocated (fst s)"
  proof (cases "Option.bind commandLineJson clj_commands")
    case None
    with assms(2) 1 show ?thesis by (auto simp: constructCommands_def)
  next
    case (Some commandsJson)
    with assms(2) have "processCommands commandsJson (this1, None) = Inr s"
      by (simp add: constructCommands_def)
    from processCommands_parameterSets [OF this] 1 show ?thesis by simp
  qed
  show ?thesis
  proof (cases "truthy (doNotIncludeDefaultBuildCommands options)")
    case True
    with assms(3) 2 show ?thesis by (simp add: defaultsStage_def)
  next
    case False
    with assms(3) have "addDefaultBuildCommands s = Inr this3" by (simp add: defaultsStage_def)
    from addDefaultBuildCommands_parameterSets [OF this 2] show ?thesis .
  qed
qed

subsection \<open>The loop over the parameters\<close>

text \<open>
  The parameter at address \<open>q\<close> of the configuration is the normalized \<open>parameter\<close> with the
  synthetic phase names appended, and it is a member of the set of parameters of each of
  its associated commands.
\<close>

definition parameterBound :: "CommandLineConfiguration \<Rightarrow> nat \<Rightarrow> ParameterJson \<Rightarrow> bool" where
  "parameterBound this q parameter =
     (q < length (parameters this)
      \<and> np_longName (parameters this ! q) = pr_longName parameter
      \<and> np_associatedCommands (parameters this ! q)
          = np_associatedCommands (normalizeParameter parameter)
      \<and> np_associatedPhases (parameters this ! q)
          = np_associatedPhases (normalizeParameter parameter)
              @ syntheticPhaseNames this (np_associatedCommands (normalizeParameter parameter))
      \<and> (\<forall>n\<in>set (np_associatedCommands (normalizeParameter parameter)).
            \<exists>c. map_of (commands this) n = Some c
              \<and> cmd_associatedParameters c < length (parameterSetHeap this)
              \<and> q \<in> set (parameterSetHeap this ! cmd_associatedParameters c)))"

definition grows :: "CommandLineConfiguration \<Rightarrow> CommandLineConfiguration \<Rightarrow> bool" where
  "grows this this' =
     (sameButParameters this this'
      \<and> length (parameters this) \<le> length (parameters this')
      \<and> (\<forall>q<length (parameters this). parameters this' ! q = parameters this ! q)
      \<and> length (parameterSetHeap this') = length (parameterSetHeap this)
      \<and> (\<forall>a. set (parameterSetHeap this ! a) \<subseteq> set (parameterSetHeap this' ! a)))"

lemma grows_refl: "grows this this"
  by (simp add: grows_def sameButParameters_def)

lemma grows_trans:
  assumes ab: "grows a b" and bc: "grows b c"
  shows "grows a c"
proof -
  from ab bc have "sameButParameters a c"
    by (simp add: grows_def sameButParameters_def)
  moreover from ab bc have "length (parameters a) \<le> length (parameters c)"
    by (auto simp: grows_def)
  moreover have "\<forall>q<length (parameters a). parameters c ! q = parameters a ! q"
  proof (intro allI impI)
    fix q assume q: "q < length (parameters a)"
    with ab have "q < length (parameters b)" "parameters b ! q = parameters a ! q"
      by (auto simp: grows_def)
    with bc show "parameters c ! q = parameters a ! q" by (simp add: grows_def)
  qed
  moreover from ab bc have "length (parameterSetHeap c) = length (parameterSetHeap a)"
    by (simp add: grows_def)
  moreover have "\<forall>x. set (parameterSetHeap a ! x) \<subseteq> set (parameterSetHeap c ! x)"
  proof
    fix x
    from ab have "set (parameterSetHeap a ! x) \<subseteq> set (parameterSetHeap b ! x)"
      by (simp add: grows_def)
    also from bc have "\<dots> \<subseteq> set (parameterSetHeap c ! x)"
      by (simp add: grows_def)
    finally show "set (parameterSetHeap a ! x) \<subseteq> set (parameterSetHeap c ! x)" .
  qed
  ultimately show ?thesis unfolding grows_def by blast
qed

lemma parameterBound_grows:
  assumes b: "parameterBound this q parameter" and g: "grows this this'"
  shows "parameterBound this' q parameter"
proof -
  from g have same: "sameButParameters this this'" by (simp add: grows_def)
  from b have q: "q < length (parameters this)" by (simp add: parameterBound_def)
  with g have pq: "parameters this' ! q = parameters this ! q" "q < length (parameters this')"
    by (auto simp: grows_def)
  from same have cm: "commands this' = commands this" by (simp add: sameButParameters_def)
  from g have l: "length (parameterSetHeap this') = length (parameterSetHeap this)"
    and sub: "\<And>a. set (parameterSetHeap this ! a) \<subseteq> set (parameterSetHeap this' ! a)"
    by (simp_all add: grows_def)
  have "\<forall>n\<in>set (np_associatedCommands (normalizeParameter parameter)).
      \<exists>c. map_of (commands this') n = Some c
        \<and> cmd_associatedParameters c < length (parameterSetHeap this')
        \<and> q \<in> set (parameterSetHeap this' ! cmd_associatedParameters c)"
  proof
    fix n assume "n \<in> set (np_associatedCommands (normalizeParameter parameter))"
    with b obtain c where "map_of (commands this) n = Some c"
      "cmd_associatedParameters c < length (parameterSetHeap this)"
      "q \<in> set (parameterSetHeap this ! cmd_associatedParameters c)"
      unfolding parameterBound_def by blast
    with cm l sub [of "cmd_associatedParameters c"]
    show "\<exists>c. map_of (commands this') n = Some c
        \<and> cmd_associatedParameters c < length (parameterSetHeap this')
        \<and> q \<in> set (parameterSetHeap this' ! cmd_associatedParameters c)"
      by auto
  qed
  with b pq syntheticPhaseNames_same [OF same] show ?thesis
    by (simp add: parameterBound_def)
qed

lemma processParameter_Inr:
  assumes r: "processParameter parameter this = Inr this'"
    and al: "parameterSetsAllocated this"
  shows "grows this this' \<and> length (parameters this') = Suc (length (parameters this))
    \<and> parameterBound this' (length (parameters this)) parameter
    \<and> parameterSetsAllocated this'"
proof -
  let ?p = "length (parameters this)" and ?this1 = "pushed parameter this"
  let ?names = "np_associatedCommands (normalizeParameter parameter)"
  from r have a: "associateParameter ?p ?this1 = Inr this'"
    unfolding processParameter_unfold by (auto split: sum.splits)
  note pf = pushed_facts [where this = this and parameter = parameter]
  from associateParameter_Inr [OF pf(1) a]
  have ex: "\<forall>n\<in>set ?names. map_of (commands this) n \<noteq> None"
    and as: "associated ?p ?names ?this1 this'"
    by (simp_all add: pf)
  from as have same1: "sameButParameters ?this1 this'"
    and len: "length (parameters this') = length (parameters ?this1)"
    and others: "\<forall>q. q \<noteq> ?p \<longrightarrow> parameters this' ! q = parameters ?this1 ! q"
    and ln: "np_longName (parameters this' ! ?p) = np_longName (parameters ?this1 ! ?p)"
    and cs: "np_associatedCommands (parameters this' ! ?p)
        = np_associatedCommands (parameters ?this1 ! ?p)"
    and ps: "np_associatedPhases (parameters this' ! ?p)
        = np_associatedPhases (parameters ?this1 ! ?p) @ syntheticPhaseNames ?this1 ?names"
    and sl: "length (parameterSetHeap this') = length (parameterSetHeap ?this1)"
    and sub: "\<forall>a. set (parameterSetHeap ?this1 ! a) \<subseteq> set (parameterSetHeap this' ! a)"
    and mem: "\<forall>n\<in>set ?names. \<forall>c. map_of (commands ?this1) n = Some c
        \<longrightarrow> cmd_associatedParameters c < length (parameterSetHeap ?this1)
        \<longrightarrow> ?p \<in> set (parameterSetHeap this' ! cmd_associatedParameters c)"
    unfolding associated_def by blast+
  from pf(6) same1 have same: "sameButParameters this this'"
    by (simp add: sameButParameters_def)
  have len': "length (parameters this') = Suc ?p"
    using len by (simp add: pushed_def)
  have g: "grows this this'"
    unfolding grows_def using same len' others sl sub pf(5,7) by auto
  from same have cm: "commands this' = commands this" by (simp add: sameButParameters_def)
  have al': "parameterSetsAllocated this'"
    using al cm sl pf(5) by (simp add: parameterSetsAllocated_def)
  have m: "\<forall>n\<in>set ?names. \<exists>c. map_of (commands this') n = Some c
        \<and> cmd_associatedParameters c < length (parameterSetHeap this')
        \<and> ?p \<in> set (parameterSetHeap this' ! cmd_associatedParameters c)"
  proof
    fix n assume n: "n \<in> set ?names"
    with ex obtain c where c: "map_of (commands this) n = Some c" by auto
    then have "(n, c) \<in> set (commands this)" by (rule map_of_SomeD)
    with al have v: "cmd_associatedParameters c < length (parameterSetHeap this)"
      by (auto simp: parameterSetsAllocated_def)
    with mem n c pf(3,5) have "?p \<in> set (parameterSetHeap this' ! cmd_associatedParameters c)"
      by simp
    with c v cm sl pf(5)
    show "\<exists>c. map_of (commands this') n = Some c
        \<and> cmd_associatedParameters c < length (parameterSetHeap this')
        \<and> ?p \<in> set (parameterSetHeap this' ! cmd_associatedParameters c)"
      by simp
  qed
  have sn: "syntheticPhaseNames ?this1 ?names = syntheticPhaseNames this' ?names"
    using syntheticPhaseNames_same [OF same1] by simp
  have "parameterBound this' ?p parameter"
    unfolding parameterBound_def
    using len' ln cs ps m pf(2) sn by (simp add: normalizeParameter_def)
  with g len' al' show ?thesis by blast
qed

lemma processParameters_Inr:
  "processParameters parametersJson this = Inr this' \<Longrightarrow> parameterSetsAllocated this
     \<Longrightarrow> grows this this'
       \<and> length (parameters this') = length (parameters this) + length parametersJson
       \<and> (\<forall>i<length parametersJson.
             parameterBound this' (length (parameters this) + i) (parametersJson ! i))"
proof (induction parametersJson arbitrary: this)
  case Nil
  then show ?case by (simp add: grows_refl)
next
  case (Cons parameter rest)
  from Cons.prems(1) obtain this1 where p: "processParameter parameter this = Inr this1"
    and r: "processParameters rest this1 = Inr this'"
    by (auto split: sum.splits)
  from processParameter_Inr [OF p Cons.prems(2)]
  have s: "grows this this1" "length (parameters this1) = Suc (length (parameters this))"
    "parameterBound this1 (length (parameters this)) parameter" "parameterSetsAllocated this1"
    by simp_all
  from Cons.IH [OF r s(4)]
  have ih: "grows this1 this'"
    "length (parameters this') = length (parameters this1) + length rest"
    "\<forall>i<length rest. parameterBound this' (length (parameters this1) + i) (rest ! i)"
    by simp_all
  have "\<forall>i<length (parameter # rest).
      parameterBound this' (length (parameters this) + i) ((parameter # rest) ! i)"
  proof (intro allI impI)
    fix i assume i: "i < length (parameter # rest)"
    show "parameterBound this' (length (parameters this) + i) ((parameter # rest) ! i)"
    proof (cases i)
      case 0
      with parameterBound_grows [OF s(3) ih(1)] show ?thesis by simp
    next
      case (Suc j)
      with i ih(3) s(2) show ?thesis by simp
    qed
  qed
  with grows_trans [OF s(1) ih(1)] ih(2) s(2) show ?case by simp
qed

lemma commandsStage_parameters:
  "processCommands commandsJson s = Inr s' \<Longrightarrow> parameters (fst s') = parameters (fst s)"
proof (induction commandsJson arbitrary: s)
  case Nil
  then show ?case by simp
next
  case (Cons command rest)
  from Cons.prems obtain s1 where s1: "processCommand command s = Inr s1"
    and r: "processCommands rest s1 = Inr s'"
    by (auto split: sum.splits)
  from s1 obtain c this' b where n: "normalizeCommand command (fst s) = Inr (c, this')"
    and e: "s1 = (this'\<lparr>commands := AList.update (cmd_name c) c (commands this')\<rparr>, b)"
    by (auto simp: processCommand_def split: if_splits sum.splits)
  have "parameters this' = parameters (fst s)"
  proof (cases "cj_commandKind command")
    case bulkCommandKind
    with n show ?thesis
      by (auto simp: normalizeCommand_def translateBulkCommandToPhasedCommand_def Let_def)
  next
    case globalCommandKind
    with n show ?thesis
      by (auto simp: normalizeCommand_def normalizeGlobalCommand_def)
  next
    case phasedCommandKind
    with n show ?thesis
      by (auto simp: normalizeCommand_def normalizePhasedCommand_def split: sum.splits prod.splits)
  qed
  with Cons.IH [OF r] e show ?case by simp
qed

lemma beforeParameters_none:
  assumes "phasesStage commandLineJson = Inr this1"
    and "constructCommands commandLineJson this1 = Inr s"
    and "defaultsStage options s = Inr this3"
  shows "parameters this3 = []"
proof -
  have 1: "parameters this1 = []"
  proof (cases "Option.bind commandLineJson clj_phases")
    case None
    with assms(1) show ?thesis by (auto simp: phasesStage_def emptyConfiguration_def)
  next
    case (Some phasesJson)
    with assms(1) have c: "constructPhases phasesJson emptyConfiguration = Inr this1"
      by (simp add: phasesStage_def)
    have "phasesOk emptyConfiguration"
      using wellFormed_empty by (simp add: phasesOk_def wellFormed_def)
    from constructPhases_ok [OF c this] show ?thesis
      by (simp add: sameButPhases_def emptyConfiguration_def)
  qed
  have 2: "parameters (fst s) = []"
  proof (cases "Option.bind commandLineJson clj_commands")
    case None
    with assms(2) 1 show ?thesis by (auto simp: constructCommands_def)
  next
    case (Some commandsJson)
    with assms(2) have "processCommands commandsJson (this1, None) = Inr s"
      by (simp add: constructCommands_def)
    from commandsStage_parameters [OF this] 1 show ?thesis by simp
  qed
  show ?thesis
  proof (cases "truthy (doNotIncludeDefaultBuildCommands options)")
    case True
    with assms(3) 2 show ?thesis by (simp add: defaultsStage_def)
  next
    case False
    with assms(3) have a: "addDefaultBuildCommands s = Inr this3" by (simp add: defaultsStage_def)
    obtain buildCommand this2 b where d: "addDefaultBuildCommand s = (buildCommand, this2, b)"
      by (cases "addDefaultBuildCommand s") auto
    then have "parameters this2 = parameters (fst s)"
      by (auto simp: addDefaultBuildCommand_def translateBulkCommandToPhasedCommand_def Let_def
          split: option.splits)
    moreover from a d have "parameters this3 = parameters this2"
      by (auto simp: addDefaultBuildCommands_def addDefaultRebuildCommand_def Let_def
          split: if_splits option.splits)
    ultimately show ?thesis using 2 by simp
  qed
qed

subsection \<open>What the association of a parameter guarantees\<close>

lemma syntheticPhaseNames_member:
  "n \<in> set names \<Longrightarrow> map_of (syntheticPhasesByTranslatedBulkCommandName this) n = Some synthetic
     \<Longrightarrow> nameOf (phaseHeap this) synthetic \<in> set (syntheticPhaseNames this names)"
  by (force simp: syntheticPhaseNames_def)

text \<open>The names of the phases of a declared parameter at the end of the first loop.\<close>

definition associatedPhaseNames :: "CommandLineConfiguration \<Rightarrow> ParameterJson \<Rightarrow> string list" where
  "associatedPhaseNames this parameter =
     np_associatedPhases (normalizeParameter parameter)
       @ syntheticPhaseNames this (np_associatedCommands (normalizeParameter parameter))"

definition associatedCommandNames :: "ParameterJson \<Rightarrow> string list" where
  "associatedCommandNames parameter = np_associatedCommands (normalizeParameter parameter)"

definition defaultValueRejected :: "ParameterJson \<Rightarrow> bool" where
  "defaultValueRejected parameter =
     (pr_parameterKind parameter = choiceParameter
      \<and> (case pr_defaultValue parameter of
            None \<Rightarrow> False
          | Some defaultValue \<Rightarrow>
              defaultValue \<noteq> [] \<and> defaultValue \<notin> set (pr_alternatives parameter)))"

lemma validateParameterKind_cases:
  "validateParameterKind (normalizeParameter parameter) =
     (if defaultValueRejected parameter
        then Inl (DefaultValueNotAnAlternative (pr_longName parameter)
                    (the (pr_defaultValue parameter)) (pr_alternatives parameter))
      else Inr ())"
  by (cases "pr_parameterKind parameter")
    (auto simp: validateParameterKind_def normalizeParameter_def defaultValueRejected_def
      split: option.splits)

text \<open>
  C7, amended: the processing of a declared parameter fails in exactly these cases, tested
  in this order: the parameter is a choice whose default value is not empty and not one of
  its alternatives; an associated command does not exist (the error names the parameter
  and the command); an associated phase, declared or pushed for a translated bulk command,
  does not exist (the error names the parameter and the phase); the parameter lists no
  associated command (the error names the parameter); all its associated commands are of
  phased kind and it ends with no associated phase (the error names the parameter).
  Otherwise the processing succeeds.
\<close>

theorem parameter_validation_cases:
  "if defaultValueRejected parameter then
     processParameter parameter this
       = Inl (DefaultValueNotAnAlternative (pr_longName parameter)
                (the (pr_defaultValue parameter)) (pr_alternatives parameter))
   else if \<exists>n\<in>set (associatedCommandNames parameter). map_of (commands this) n = None then
     \<exists>n\<in>set (associatedCommandNames parameter). map_of (commands this) n = None
       \<and> processParameter parameter this
           = Inl (ParameterCommandDoesNotExist (pr_longName parameter) n)
   else if \<exists>n\<in>set (associatedPhaseNames this parameter). map_of (phases this) n = None then
     \<exists>n\<in>set (associatedPhaseNames this parameter). map_of (phases this) n = None
       \<and> processParameter parameter this
           = Inl (ParameterPhaseDoesNotExist (pr_longName parameter) n)
   else if associatedCommandNames parameter = [] then
     processParameter parameter this
       = Inl (ParameterListsNoAssociatedCommands (pr_longName parameter))
   else if onlyPhasedCommands this (associatedCommandNames parameter)
           \<and> associatedPhaseNames this parameter = [] then
     processParameter parameter this
       = Inl (ParameterListsNoAssociatedPhases (pr_longName parameter))
   else \<exists>this'. processParameter parameter this = Inr this'"
proof (cases "defaultValueRejected parameter")
  case True
  then show ?thesis
    unfolding processParameter_unfold validateParameterKind_cases by simp
next
  case False
  let ?p = "length (parameters this)" and ?this1 = "pushed parameter this"
  note pf = pushed_facts [where this = this and parameter = parameter]
  from False have u: "processParameter parameter this = associateParameter ?p ?this1"
    unfolding processParameter_unfold validateParameterKind_cases by simp
  have n: "np_associatedCommands (parameters ?this1 ! ?p) = associatedCommandNames parameter"
    "np_longName (parameters ?this1 ! ?p) = pr_longName parameter"
    by (simp_all add: pf associatedCommandNames_def normalizeParameter_def)
  have f: "finalAssociatedPhases ?p ?this1 = associatedPhaseNames this parameter"
    by (simp add: finalAssociatedPhases_pushed associatedPhaseNames_def)
  have "if \<exists>n\<in>set (associatedCommandNames parameter). map_of (commands this) n = None then
     \<exists>n\<in>set (associatedCommandNames parameter). map_of (commands this) n = None
       \<and> processParameter parameter this
           = Inl (ParameterCommandDoesNotExist (pr_longName parameter) n)
   else if \<exists>n\<in>set (associatedPhaseNames this parameter). map_of (phases this) n = None then
     \<exists>n\<in>set (associatedPhaseNames this parameter). map_of (phases this) n = None
       \<and> processParameter parameter this
           = Inl (ParameterPhaseDoesNotExist (pr_longName parameter) n)
   else if associatedCommandNames parameter = [] then
     processParameter parameter this
       = Inl (ParameterListsNoAssociatedCommands (pr_longName parameter))
   else if onlyPhasedCommands this (associatedCommandNames parameter)
           \<and> associatedPhaseNames this parameter = [] then
     processParameter parameter this
       = Inl (ParameterListsNoAssociatedPhases (pr_longName parameter))
   else \<exists>this'. processParameter parameter this = Inr this'"
    using associateParameter_result [OF pf(1)]
    unfolding u n f pf(3,4) onlyPhasedCommands_pushed
    by (auto split: if_splits)
  then show ?thesis unfolding if_not_P [OF False] .
qed

text \<open>
  C7, as stated, misses cases: a parameter that names the existing command \<open>build\<close> and a
  command that does not exist resolves a command and has an associated phase, and its
  processing fails.
\<close>

definition parametersOnlyJson :: "ParameterJson list \<Rightarrow> ICommandLineJson" where
  "parametersOnlyJson parametersJson =
     \<lparr>clj_phases = None, clj_commands = None, clj_parameters = Some parametersJson\<rparr>"

theorem parameter_validation_counterexample:
  "map_of (commands defaultConfiguration) ''build'' \<noteq> None
   \<and> associatedPhaseNames defaultConfiguration (parameterJson ''--x'' [''build'', ''nope''] [])
       = [''build'']
   \<and> processParameter (parameterJson ''--x'' [''build'', ''nope''] []) defaultConfiguration
       = Inl (ParameterCommandDoesNotExist ''--x'' ''nope'')
   \<and> newCommandLineConfiguration
        (Some (parametersOnlyJson [parameterJson ''--x'' [''build'', ''nope''] []])) exampleOptions
       = Inl (ParameterCommandDoesNotExist ''--x'' ''nope'')"
  unfolding defaultConfiguration_def by (intro conjI) code_simp+

theorem parameter_validation_cases_witness:
  "processParameter (parameterJson ''--y'' [''rebuild''] []) defaultConfiguration
     = Inl (ParameterListsNoAssociatedPhases ''--y'')
   \<and> (\<exists>this'. processParameter (parameterJson ''--x'' [''build'', ''rebuild''] [])
                 defaultConfiguration = Inr this')"
proof -
  let ?y = "parameterJson ''--y'' [''rebuild''] []"
  let ?x = "parameterJson ''--x'' [''build'', ''rebuild''] []"
  have y: "\<not> defaultValueRejected ?y"
    "\<not> (\<exists>n\<in>set (associatedCommandNames ?y). map_of (commands defaultConfiguration) n = None)"
    "\<not> (\<exists>n\<in>set (associatedPhaseNames defaultConfiguration ?y).
          map_of (phases defaultConfiguration) n = None)"
    "associatedCommandNames ?y \<noteq> []"
    "onlyPhasedCommands defaultConfiguration (associatedCommandNames ?y)
      \<and> associatedPhaseNames defaultConfiguration ?y = []"
    "pr_longName ?y = ''--y''"
    unfolding defaultConfiguration_def by code_simp+
  have x: "\<not> defaultValueRejected ?x"
    "\<not> (\<exists>n\<in>set (associatedCommandNames ?x). map_of (commands defaultConfiguration) n = None)"
    "\<not> (\<exists>n\<in>set (associatedPhaseNames defaultConfiguration ?x).
          map_of (phases defaultConfiguration) n = None)"
    "associatedCommandNames ?x \<noteq> []"
    "\<not> (onlyPhasedCommands defaultConfiguration (associatedCommandNames ?x)
      \<and> associatedPhaseNames defaultConfiguration ?x = [])"
    unfolding defaultConfiguration_def by code_simp+
  from parameter_validation_cases [of ?y defaultConfiguration]
  have 1: "processParameter ?y defaultConfiguration = Inl (ParameterListsNoAssociatedPhases ''--y'')"
    unfolding if_not_P [OF y(1)] if_not_P [OF y(2)] if_not_P [OF y(3)] if_not_P [OF y(4)]
      if_P [OF y(5)] y(6) .
  from parameter_validation_cases [of ?x defaultConfiguration]
  have 2: "\<exists>this'. processParameter ?x defaultConfiguration = Inr this'"
    unfolding if_not_P [OF x(1)] if_not_P [OF x(2)] if_not_P [OF x(3)] if_not_P [OF x(4)]
      if_not_P [OF x(5)] .
  from 1 2 show ?thesis by simp
qed

subsection \<open>The synthetic phases of the translated bulk commands\<close>

text \<open>
  What the constructor keeps true of \<open>_syntheticPhasesByTranslatedBulkCommandName\<close>: an
  entry under the name \<open>n\<close> is a stored synthetic phase of the name \<open>n\<close>, registered under
  \<open>n\<close>, and the command \<open>n\<close> is a synthetic command whose set \<open>phases\<close> holds this phase
  and nothing else.
\<close>

definition translationsRecorded :: "CommandLineConfiguration \<Rightarrow> bool" where
  "translationsRecorded this =
     (\<forall>n a. map_of (syntheticPhasesByTranslatedBulkCommandName this) n = Some a \<longrightarrow>
        a < length (phaseHeap this) \<and> ph_name (phaseHeap this ! a) = n
        \<and> ph_isSynthetic (phaseHeap this ! a)
        \<and> map_of (phases this) n = Some a
        \<and> (\<exists>c s. map_of (commands this) n = Some c \<and> cmd_isSynthetic c
              \<and> cmd_phases c = Some s \<and> s < length (phaseSetHeap this)
              \<and> phaseSetHeap this ! s = [a]))"

text \<open>
  The names of the commands that \<open>_translateBulkCommandToPhasedCommand\<close> translates: the
  declared commands of bulk kind, and the default command \<open>build\<close> when the default commands
  are included and no command \<open>build\<close> is declared.
\<close>

definition translatedBulkCommandNames :: "ICommandLineJson option \<Rightarrow> ICommandLineConfigurationOptions \<Rightarrow> string set" where
  "translatedBulkCommandNames commandLineJson options =
     (case Option.bind commandLineJson clj_commands of
        None \<Rightarrow> {}
      | Some commandsJson \<Rightarrow>
          set (map cj_name (filter (\<lambda>c. cj_commandKind c = bulkCommandKind) commandsJson)))
     \<union> (if \<not> truthy (doNotIncludeDefaultBuildCommands options)
            \<and> buildCommandName \<notin> declaredCommandNames commandLineJson
          then {buildCommandName} else {})"

lemma translationsRecorded_translate:
  assumes r: "translationsRecorded this"
    and t: "translateBulkCommandToPhasedCommand command this = (c, this1)"
    and c': "cmd_isSynthetic c'" "cmd_phases c' = cmd_phases c"
    and this': "this' = this1\<lparr>commands := AList.update (cj_name command) c' (commands this1)\<rparr>"
    and fresh: "map_of (commands this) (cj_name command) = None"
  shows "translationsRecorded this'
    \<and> map_of (syntheticPhasesByTranslatedBulkCommandName this') (cj_name command) \<noteq> None
    \<and> (\<forall>n. map_of (syntheticPhasesByTranslatedBulkCommandName this) n \<noteq> None
          \<longrightarrow> map_of (syntheticPhasesByTranslatedBulkCommandName this') n \<noteq> None)"
proof -
  let ?k = "cj_name command" and ?a = "length (phaseHeap this)" and ?s = "length (phaseSetHeap this)"
  from t have f: "phaseHeap this1 = phaseHeap this @ [syntheticPhase command ?a]"
    "phases this1 = AList.update ?k ?a (phases this)"
    "syntheticPhasesByTranslatedBulkCommandName this1
      = AList.update ?k ?a (syntheticPhasesByTranslatedBulkCommandName this)"
    "commands this1 = commands this"
    "cmd_phases c = Some ?s"
    "\<exists>xs. phaseSetHeap this1 = phaseSetHeap this @ [?a] # xs"
    by (auto simp: translateBulkCommandToPhasedCommand_def Let_def)
  from f(6) obtain xs where sets: "phaseSetHeap this1 = phaseSetHeap this @ [?a] # xs" by blast
  have g: "phaseHeap this' = phaseHeap this @ [syntheticPhase command ?a]"
    "phases this' = AList.update ?k ?a (phases this)"
    "syntheticPhasesByTranslatedBulkCommandName this'
      = AList.update ?k ?a (syntheticPhasesByTranslatedBulkCommandName this)"
    "commands this' = AList.update ?k c' (commands this)"
    "phaseSetHeap this' = phaseSetHeap this @ [?a] # xs"
    unfolding this' using f(1-4) sets by simp_all
  have "translationsRecorded this'"
    unfolding translationsRecorded_def
  proof (intro allI impI)
    fix n a assume m: "map_of (syntheticPhasesByTranslatedBulkCommandName this') n = Some a"
    show "a < length (phaseHeap this') \<and> ph_name (phaseHeap this' ! a) = n
        \<and> ph_isSynthetic (phaseHeap this' ! a)
        \<and> map_of (phases this') n = Some a
        \<and> (\<exists>c s. map_of (commands this') n = Some c \<and> cmd_isSynthetic c
              \<and> cmd_phases c = Some s \<and> s < length (phaseSetHeap this')
              \<and> phaseSetHeap this' ! s = [a])"
    proof (cases "n = ?k")
      case True
      with m have a: "a = ?a" unfolding g by (simp add: update_conv')
      have "map_of (commands this') n = Some c' \<and> cmd_isSynthetic c'
          \<and> cmd_phases c' = Some ?s \<and> ?s < length (phaseSetHeap this')
          \<and> phaseSetHeap this' ! ?s = [a]"
        unfolding g using True a c' f(5) by (simp add: update_conv')
      then have "\<exists>c s. map_of (commands this') n = Some c \<and> cmd_isSynthetic c
              \<and> cmd_phases c = Some s \<and> s < length (phaseSetHeap this')
              \<and> phaseSetHeap this' ! s = [a]"
        by blast
      moreover have "a < length (phaseHeap this') \<and> ph_name (phaseHeap this' ! a) = n
        \<and> ph_isSynthetic (phaseHeap this' ! a) \<and> map_of (phases this') n = Some a"
        unfolding g using True a by (simp add: update_conv' syntheticPhase_def)
      ultimately show ?thesis by blast
    next
      case False
      with m have "map_of (syntheticPhasesByTranslatedBulkCommandName this) n = Some a"
        unfolding g by (simp add: update_conv')
      with r obtain c0 s where o: "a < length (phaseHeap this)" "ph_name (phaseHeap this ! a) = n"
        "ph_isSynthetic (phaseHeap this ! a)" "map_of (phases this) n = Some a"
        "map_of (commands this) n = Some c0" "cmd_isSynthetic c0" "cmd_phases c0 = Some s"
        "s < length (phaseSetHeap this)" "phaseSetHeap this ! s = [a]"
        unfolding translationsRecorded_def by blast
      have "map_of (commands this') n = Some c0 \<and> cmd_isSynthetic c0
          \<and> cmd_phases c0 = Some s \<and> s < length (phaseSetHeap this')
          \<and> phaseSetHeap this' ! s = [a]"
        unfolding g using False o by (simp add: update_conv' nth_append)
      then have "\<exists>c s. map_of (commands this') n = Some c \<and> cmd_isSynthetic c
              \<and> cmd_phases c = Some s \<and> s < length (phaseSetHeap this')
              \<and> phaseSetHeap this' ! s = [a]"
        by blast
      moreover have "a < length (phaseHeap this') \<and> ph_name (phaseHeap this' ! a) = n
        \<and> ph_isSynthetic (phaseHeap this' ! a) \<and> map_of (phases this') n = Some a"
        unfolding g using False o by (simp add: update_conv' nth_append)
      ultimately show ?thesis by blast
    qed
  qed
  moreover have "map_of (syntheticPhasesByTranslatedBulkCommandName this') ?k \<noteq> None"
    unfolding g by (simp add: update_conv')
  moreover have "\<forall>n. map_of (syntheticPhasesByTranslatedBulkCommandName this) n \<noteq> None
          \<longrightarrow> map_of (syntheticPhasesByTranslatedBulkCommandName this') n \<noteq> None"
    unfolding g by (simp add: update_conv')
  ultimately show ?thesis by blast
qed

lemma translationsRecorded_other:
  assumes r: "translationsRecorded this"
    and same: "phaseHeap this' = phaseHeap this" "phases this' = phases this"
      "syntheticPhasesByTranslatedBulkCommandName this'
        = syntheticPhasesByTranslatedBulkCommandName this"
    and sets: "phaseSetHeap this' = phaseSetHeap this @ xs"
    and cmds: "commands this' = AList.update k c (commands this)"
    and fresh: "map_of (commands this) k = None"
  shows "translationsRecorded this'"
  unfolding translationsRecorded_def
proof (intro allI impI)
  fix n a assume "map_of (syntheticPhasesByTranslatedBulkCommandName this') n = Some a"
  then have "map_of (syntheticPhasesByTranslatedBulkCommandName this) n = Some a"
    unfolding same .
  with r obtain c0 s where o: "a < length (phaseHeap this)" "ph_name (phaseHeap this ! a) = n"
    "ph_isSynthetic (phaseHeap this ! a)" "map_of (phases this) n = Some a"
    "map_of (commands this) n = Some c0" "cmd_isSynthetic c0" "cmd_phases c0 = Some s"
    "s < length (phaseSetHeap this)" "phaseSetHeap this ! s = [a]"
    unfolding translationsRecorded_def by blast
  from o(5) fresh have "n \<noteq> k" by auto
  then have "map_of (commands this') n = Some c0 \<and> cmd_isSynthetic c0
      \<and> cmd_phases c0 = Some s \<and> s < length (phaseSetHeap this')
      \<and> phaseSetHeap this' ! s = [a]"
    unfolding cmds sets using o by (simp add: update_conv' nth_append)
  then have "\<exists>c s. map_of (commands this') n = Some c \<and> cmd_isSynthetic c
      \<and> cmd_phases c = Some s \<and> s < length (phaseSetHeap this')
      \<and> phaseSetHeap this' ! s = [a]"
    by blast
  with o(1-4) show "a < length (phaseHeap this') \<and> ph_name (phaseHeap this' ! a) = n
      \<and> ph_isSynthetic (phaseHeap this' ! a)
      \<and> map_of (phases this') n = Some a
      \<and> (\<exists>c s. map_of (commands this') n = Some c \<and> cmd_isSynthetic c
            \<and> cmd_phases c = Some s \<and> s < length (phaseSetHeap this')
            \<and> phaseSetHeap this' ! s = [a])"
    unfolding same by blast
qed

lemma normalizeCommand_other:
  assumes n: "normalizeCommand command this = Inr (c, this')"
    and k: "cj_commandKind command \<noteq> bulkCommandKind"
  shows "phaseHeap this' = phaseHeap this \<and> phases this' = phases this
    \<and> syntheticPhasesByTranslatedBulkCommandName this'
        = syntheticPhasesByTranslatedBulkCommandName this
    \<and> commands this' = commands this
    \<and> (\<exists>xs. phaseSetHeap this' = phaseSetHeap this @ xs)"
proof (cases "cj_commandKind command")
  case bulkCommandKind
  with k show ?thesis by simp
next
  case globalCommandKind
  with n show ?thesis
    by (auto simp: normalizeCommand_def normalizeGlobalCommand_def)
next
  case phasedCommandKind
  with n show ?thesis
    by (auto simp: normalizeCommand_def normalizePhasedCommand_def split: sum.splits prod.splits)
qed

lemma processCommand_recorded:
  assumes p: "processCommand command s = Inr s'" and r: "translationsRecorded (fst s)"
  shows "translationsRecorded (fst s')
    \<and> (cj_commandKind command = bulkCommandKind
        \<longrightarrow> map_of (syntheticPhasesByTranslatedBulkCommandName (fst s')) (cj_name command) \<noteq> None)
    \<and> (\<forall>n. map_of (syntheticPhasesByTranslatedBulkCommandName (fst s)) n \<noteq> None
          \<longrightarrow> map_of (syntheticPhasesByTranslatedBulkCommandName (fst s')) n \<noteq> None)"
proof -
  from p have fresh: "map_of (commands (fst s)) (cj_name command) = None"
    by (auto simp: processCommand_def split: if_splits)
  from p obtain c this1 where n: "normalizeCommand command (fst s) = Inr (c, this1)"
    by (auto simp: processCommand_def split: if_splits sum.splits)
  from p n obtain b where
    s': "s' = (this1\<lparr>commands := AList.update (cmd_name c) c (commands this1)\<rparr>, b)"
    by (auto simp: processCommand_def split: if_splits sum.splits)
  from normalizeCommand_fields [OF n] have nm: "cmd_name c = cj_name command"
    by (simp add: cmd_name_def)
  show ?thesis
  proof (cases "cj_commandKind command = bulkCommandKind")
    case True
    with n have t: "translateBulkCommandToPhasedCommand command (fst s) = (c, this1)"
      by (simp add: normalizeCommand_def)
    then have "cmd_isSynthetic c"
      by (auto simp: translateBulkCommandToPhasedCommand_def Let_def)
    from translationsRecorded_translate [OF r t this refl _ fresh, of "fst s'"]
    show ?thesis unfolding s' nm by simp
  next
    case False
    from normalizeCommand_other [OF n False] obtain xs where
      o: "phaseHeap this1 = phaseHeap (fst s)" "phases this1 = phases (fst s)"
      "syntheticPhasesByTranslatedBulkCommandName this1
        = syntheticPhasesByTranslatedBulkCommandName (fst s)"
      "commands this1 = commands (fst s)"
      "phaseSetHeap this1 = phaseSetHeap (fst s) @ xs"
      by blast
    have "translationsRecorded (fst s')"
      by (rule translationsRecorded_other [OF r, where k = "cj_name command" and c = c and xs = xs])
        (simp_all add: s' nm o fresh)
    moreover have "syntheticPhasesByTranslatedBulkCommandName (fst s')
        = syntheticPhasesByTranslatedBulkCommandName (fst s)"
      by (simp add: s' o)
    ultimately show ?thesis using False by simp
  qed
qed

lemma processCommands_recorded:
  "processCommands commandsJson s = Inr s' \<Longrightarrow> translationsRecorded (fst s)
     \<Longrightarrow> translationsRecorded (fst s')
       \<and> (\<forall>command\<in>set commandsJson. cj_commandKind command = bulkCommandKind
            \<longrightarrow> map_of (syntheticPhasesByTranslatedBulkCommandName (fst s')) (cj_name command)
                  \<noteq> None)
       \<and> (\<forall>n. map_of (syntheticPhasesByTranslatedBulkCommandName (fst s)) n \<noteq> None
            \<longrightarrow> map_of (syntheticPhasesByTranslatedBulkCommandName (fst s')) n \<noteq> None)"
proof (induction commandsJson arbitrary: s)
  case Nil
  then show ?case by simp
next
  case (Cons command rest)
  from Cons.prems(1) obtain s1 where s1: "processCommand command s = Inr s1"
    and rest: "processCommands rest s1 = Inr s'"
    by (auto split: sum.splits)
  note a = processCommand_recorded [OF s1 Cons.prems(2)]
  from a have r1: "translationsRecorded (fst s1)" by simp
  note b = Cons.IH [OF rest r1]
  from a b show ?case by auto
qed

lemma addDefaultBuildCommands_recorded:
  assumes a: "addDefaultBuildCommands s = Inr this'" and r: "translationsRecorded (fst s)"
  shows "translationsRecorded this'
    \<and> (map_of (commands (fst s)) buildCommandName = None
        \<longrightarrow> map_of (syntheticPhasesByTranslatedBulkCommandName this') buildCommandName \<noteq> None)
    \<and> (\<forall>n. map_of (syntheticPhasesByTranslatedBulkCommandName (fst s)) n \<noteq> None
          \<longrightarrow> map_of (syntheticPhasesByTranslatedBulkCommandName this') n \<noteq> None)"
proof -
  obtain buildCommand this1 b where d: "addDefaultBuildCommand s = (buildCommand, this1, b)"
    by (cases "addDefaultBuildCommand s") auto
  have 1: "translationsRecorded this1
    \<and> (map_of (commands (fst s)) buildCommandName = None
        \<longrightarrow> map_of (syntheticPhasesByTranslatedBulkCommandName this1) buildCommandName \<noteq> None)
    \<and> (\<forall>n. map_of (syntheticPhasesByTranslatedBulkCommandName (fst s)) n \<noteq> None
          \<longrightarrow> map_of (syntheticPhasesByTranslatedBulkCommandName this1) n \<noteq> None)"
  proof (cases "map_of (commands (fst s)) buildCommandName")
    case (Some c)
    with d have "this1 = fst s" by (simp add: addDefaultBuildCommand_def)
    with Some r show ?thesis by simp
  next
    case None
    let ?t = "translateBulkCommandToPhasedCommand DEFAULT_BUILD_COMMAND_JSON (fst s)"
    let ?bc = "(fst ?t)\<lparr>cmd_disableBuildCache := cj_disableBuildCache DEFAULT_BUILD_COMMAND_JSON\<rparr>"
    have nm: "cmd_name ?bc = cj_name DEFAULT_BUILD_COMMAND_JSON"
      by (simp add: cmd_name_def translateBulkCommandToPhasedCommand_def Let_def)
    from d None have e:
      "this1 = (snd ?t)\<lparr>commands := AList.update (cj_name DEFAULT_BUILD_COMMAND_JSON) ?bc
          (commands (snd ?t))\<rparr>"
      unfolding nm [symmetric] by (auto simp: addDefaultBuildCommand_def Let_def)
    have t: "?t = (fst ?t, snd ?t)" by simp
    have sy: "cmd_isSynthetic ?bc" "cmd_phases ?bc = cmd_phases (fst ?t)"
      by (simp_all add: translateBulkCommandToPhasedCommand_def Let_def)
    have fresh: "map_of (commands (fst s)) (cj_name DEFAULT_BUILD_COMMAND_JSON) = None"
      using None by (simp add: DEFAULT_BUILD_COMMAND_JSON_def)
    from translationsRecorded_translate [OF r t sy e fresh]
    show ?thesis by (simp add: DEFAULT_BUILD_COMMAND_JSON_def)
  qed
  from a d have rb: "addDefaultRebuildCommand (buildCommand, this1, b) = Inr this'"
    by (simp add: addDefaultBuildCommands_def)
  have 2: "translationsRecorded this'
    \<and> syntheticPhasesByTranslatedBulkCommandName this'
        = syntheticPhasesByTranslatedBulkCommandName this1"
  proof (cases "map_of (commands this1) rebuildCommandName")
    case (Some c)
    with rb have "this' = this1" by (simp add: addDefaultRebuildCommand_def)
    with 1 show ?thesis by simp
  next
    case None
    with rb obtain ph where ph: "b = Some ph"
      by (auto simp: addDefaultRebuildCommand_def split: option.splits)
    let ?rc = "defaultRebuildCommand buildCommand ph (length (phaseSetHeap this1))"
    from rb None ph have t: "this' = this1\<lparr>phaseSetHeap := phaseSetHeap this1 @ [[]],
        commands := AList.update (cmd_name ?rc) ?rc (commands this1)\<rparr>"
      by (simp add: addDefaultRebuildCommand_def Let_def)
    have nm: "cmd_name ?rc = rebuildCommandName"
      by (simp add: cmd_name_def defaultRebuildCommand_def DEFAULT_REBUILD_COMMAND_JSON_def)
    from 1 have r1: "translationsRecorded this1" by simp
    have "translationsRecorded this'"
      by (rule translationsRecorded_other [OF r1, where k = rebuildCommandName and c = ?rc
            and xs = "[[]]"])
        (simp_all add: t nm None)
    then show ?thesis by (simp add: t)
  qed
  from 1 2 show ?thesis by simp
qed

lemma translationsRecorded_same:
  "translationsRecorded this \<Longrightarrow> sameButParameters this this' \<Longrightarrow> translationsRecorded this'"
  by (simp add: translationsRecorded_def sameButParameters_def)

lemma beforeParameters_recorded:
  assumes st: "phasesStage commandLineJson = Inr this1"
    "constructCommands commandLineJson this1 = Inr s"
    "defaultsStage options s = Inr this3"
  shows "translationsRecorded this3
    \<and> (\<forall>n\<in>translatedBulkCommandNames commandLineJson options.
          map_of (syntheticPhasesByTranslatedBulkCommandName this3) n \<noteq> None)"
proof -
  from phasesStage_ok [OF st(1)] have wf: "wellFormed this1" and e: "commands this1 = []"
    by simp_all
  have sy1: "syntheticPhasesByTranslatedBulkCommandName this1 = []"
  proof (cases "Option.bind commandLineJson clj_phases")
    case None
    with st(1) show ?thesis by (auto simp: phasesStage_def emptyConfiguration_def)
  next
    case (Some phasesJson)
    with st(1) have c: "constructPhases phasesJson emptyConfiguration = Inr this1"
      by (simp add: phasesStage_def)
    have "phasesOk emptyConfiguration"
      using wellFormed_empty by (simp add: phasesOk_def wellFormed_def)
    from constructPhases_ok [OF c this] show ?thesis
      by (simp add: sameButPhases_def emptyConfiguration_def)
  qed
  then have r1: "translationsRecorded this1" by (simp add: translationsRecorded_def)
  from constructCommands_ok [OF st(2) wf e]
  have names: "fst ` set (commands (fst s)) = declaredCommandNames commandLineJson" by simp
  have 2: "translationsRecorded (fst s)
    \<and> (\<forall>n\<in>(case Option.bind commandLineJson clj_commands of
               None \<Rightarrow> {}
             | Some commandsJson \<Rightarrow>
                 set (map cj_name (filter (\<lambda>c. cj_commandKind c = bulkCommandKind) commandsJson))).
          map_of (syntheticPhasesByTranslatedBulkCommandName (fst s)) n \<noteq> None)"
  proof (cases "Option.bind commandLineJson clj_commands")
    case None
    with st(2) r1 show ?thesis by (auto simp: constructCommands_def)
  next
    case (Some commandsJson)
    with st(2) have "processCommands commandsJson (this1, None) = Inr s"
      by (simp add: constructCommands_def)
    from processCommands_recorded [OF this] r1 Some show ?thesis by auto
  qed
  show ?thesis
  proof (cases "truthy (doNotIncludeDefaultBuildCommands options)")
    case True
    with st(3) have "this3 = fst s" by (simp add: defaultsStage_def)
    with 2 True show ?thesis by (simp add: translatedBulkCommandNames_def)
  next
    case False
    with st(3) have a: "addDefaultBuildCommands s = Inr this3" by (simp add: defaultsStage_def)
    note d = addDefaultBuildCommands_recorded [OF a conjunct1 [OF 2]]
    have "map_of (commands (fst s)) buildCommandName = None"
      if "buildCommandName \<notin> declaredCommandNames commandLineJson"
      using that names by (metis map_of_eq_None_iff)
    with d 2 show ?thesis by (auto simp: translatedBulkCommandNames_def)
  qed
qed


lemma syntheticPhaseNames_source:
  "n \<in> set (syntheticPhaseNames this names)
     \<Longrightarrow> \<exists>m a. map_of (syntheticPhasesByTranslatedBulkCommandName this) m = Some a
           \<and> n = nameOf (phaseHeap this) a"
proof (induction names)
  case Nil
  then show ?case by (simp add: syntheticPhaseNames_def)
next
  case (Cons x xs)
  show ?case
  proof (cases "map_of (syntheticPhasesByTranslatedBulkCommandName this) x")
    case None
    with Cons.prems have "n \<in> set (syntheticPhaseNames this xs)"
      by (simp add: syntheticPhaseNames_def)
    then show ?thesis by (rule Cons.IH)
  next
    case (Some a)
    with Cons.prems have "n = nameOf (phaseHeap this) a \<or> n \<in> set (syntheticPhaseNames this xs)"
      by (simp add: syntheticPhaseNames_def)
    with Some Cons.IH show ?thesis by blast
  qed
qed

lemma syntheticPhaseNames_registered:
  assumes r: "translationsRecorded this" and n: "n \<in> set (syntheticPhaseNames this names)"
  shows "map_of (phases this) n \<noteq> None"
proof -
  from syntheticPhaseNames_source [OF n] obtain m a
    where m: "map_of (syntheticPhasesByTranslatedBulkCommandName this) m = Some a"
    and e: "n = nameOf (phaseHeap this) a"
    by blast
  from r m have "a < length (phaseHeap this)" "ph_name (phaseHeap this ! a) = m"
    "map_of (phases this) m = Some a"
    unfolding translationsRecorded_def by blast+
  with e show ?thesis by (simp add: nameOf_def)
qed

lemma processParameter_missing_command:
  assumes v: "\<not> defaultValueRejected parameter"
    and e: "\<exists>n\<in>set (associatedCommandNames parameter). map_of (commands this) n = None"
  shows "\<exists>n\<in>set (associatedCommandNames parameter). map_of (commands this) n = None
       \<and> processParameter parameter this
           = Inl (ParameterCommandDoesNotExist (pr_longName parameter) n)"
proof -
  let ?p = "length (parameters this)" and ?this1 = "pushed parameter this"
  note pf = pushed_facts [where this = this and parameter = parameter]
  from v have u: "processParameter parameter this = associateParameter ?p ?this1"
    unfolding processParameter_unfold validateParameterKind_cases by simp
  have n: "np_associatedCommands (parameters ?this1 ! ?p) = associatedCommandNames parameter"
    "np_longName (parameters ?this1 ! ?p) = pr_longName parameter"
    by (simp_all add: pf associatedCommandNames_def normalizeParameter_def)
  from e have e': "\<exists>n\<in>set (np_associatedCommands (parameters ?this1 ! ?p)).
      map_of (commands ?this1) n = None"
    unfolding n pf(3) .
  from associateParameter_result [OF pf(1)]
  have "\<exists>n\<in>set (np_associatedCommands (parameters ?this1 ! ?p)).
      map_of (commands ?this1) n = None
      \<and> associateParameter ?p ?this1
          = Inl (ParameterCommandDoesNotExist (np_longName (parameters ?this1 ! ?p)) n)"
    unfolding if_P [OF e'] .
  then show ?thesis unfolding u n pf(3) .
qed

lemma processParameter_missing_phase:
  assumes v: "\<not> defaultValueRejected parameter"
    and c: "\<forall>n\<in>set (associatedCommandNames parameter). map_of (commands this) n \<noteq> None"
    and r: "translationsRecorded this"
    and e: "\<exists>n\<in>set (np_associatedPhases (normalizeParameter parameter)).
              map_of (phases this) n = None"
  shows "\<exists>n\<in>set (np_associatedPhases (normalizeParameter parameter)).
         map_of (phases this) n = None
       \<and> processParameter parameter this
           = Inl (ParameterPhaseDoesNotExist (pr_longName parameter) n)"
proof -
  let ?p = "length (parameters this)" and ?this1 = "pushed parameter this"
  note pf = pushed_facts [where this = this and parameter = parameter]
  from v have u: "processParameter parameter this = associateParameter ?p ?this1"
    unfolding processParameter_unfold validateParameterKind_cases by simp
  have n: "np_associatedCommands (parameters ?this1 ! ?p) = associatedCommandNames parameter"
    "np_longName (parameters ?this1 ! ?p) = pr_longName parameter"
    by (simp_all add: pf associatedCommandNames_def normalizeParameter_def)
  have f: "finalAssociatedPhases ?p ?this1 = associatedPhaseNames this parameter"
    by (simp add: finalAssociatedPhases_pushed associatedPhaseNames_def)
  from c have c': "\<not> (\<exists>n\<in>set (np_associatedCommands (parameters ?this1 ! ?p)).
      map_of (commands ?this1) n = None)"
    unfolding n pf(3) by simp
  from e have e': "\<exists>n\<in>set (finalAssociatedPhases ?p ?this1). map_of (phases ?this1) n = None"
    unfolding f pf(4) by (auto simp: associatedPhaseNames_def)
  from associateParameter_result [OF pf(1)]
  have "\<exists>n\<in>set (finalAssociatedPhases ?p ?this1). map_of (phases ?this1) n = None
      \<and> associateParameter ?p ?this1
          = Inl (ParameterPhaseDoesNotExist (np_longName (parameters ?this1 ! ?p)) n)"
    unfolding if_not_P [OF c'] if_P [OF e'] .
  then obtain x where x: "x \<in> set (associatedPhaseNames this parameter)"
    "map_of (phases this) x = None"
    "processParameter parameter this = Inl (ParameterPhaseDoesNotExist (pr_longName parameter) x)"
    unfolding u n f pf(4) by blast
  from x(2) syntheticPhaseNames_registered [OF r, of x]
  have "x \<notin> set (syntheticPhaseNames this (np_associatedCommands (normalizeParameter parameter)))"
    by blast
  with x(1) have "x \<in> set (np_associatedPhases (normalizeParameter parameter))"
    by (simp add: associatedPhaseNames_def)
  with x(2,3) show ?thesis by blast
qed

lemma processParameters_append:
  "processParameters (before @ rest) this =
     (case processParameters before this of
        Inl e \<Rightarrow> Inl e
      | Inr this' \<Rightarrow> processParameters rest this')"
  by (induction before arbitrary: this) (auto split: sum.splits)

lemma newCommandLineConfiguration_parameter_error:
  assumes j: "clj_parameters commandLineJson = Some (before @ parameter # rest)"
    and st: "phasesStage (Some commandLineJson) = Inr this1"
      "constructCommands (Some commandLineJson) this1 = Inr s"
      "defaultsStage options s = Inr this3"
    and b: "processParameters before this3 = Inr this"
    and e: "processParameter parameter this = Inl err"
  shows "newCommandLineConfiguration (Some commandLineJson) options = Inl err"
proof -
  from b e have "processParameters (before @ parameter # rest) this3 = Inl err"
    by (simp add: processParameters_append)
  with j have "parametersStage (Some commandLineJson) this3 = Inl err"
    by (simp add: parametersStage_def)
  with st show ?thesis by (simp add: newCommandLineConfiguration_def)
qed

text \<open>
  C9, as stated, fails for a choice parameter whose default value is not one of its
  alternatives: the check of the default value comes first, and the error does not name
  the command that does not exist.
\<close>

definition badDefaultParameter :: ParameterJson where
  "badDefaultParameter =
     (parameterJson ''--c'' [''nope''] [])
       \<lparr>pr_parameterKind := choiceParameter, pr_alternatives := [''a''],
        pr_defaultValue := Some ''z''\<rparr>"

theorem parameter_association_counterexample:
  "associatedCommandNames badDefaultParameter = [''nope'']
   \<and> map_of (commands defaultConfiguration) ''nope'' = None
   \<and> newCommandLineConfiguration (Some (parametersOnlyJson [badDefaultParameter])) exampleOptions
       = Inl (DefaultValueNotAnAlternative ''--c'' ''z'' [''a''])"
  unfolding defaultConfiguration_def by (intro conjI) code_simp+

text \<open>
  C9, amended: in a constructed configuration the normalized parameter number \<open>i\<close> has the
  declared associated phases followed by the names pushed for its associated commands; it
  is a member of the set \<open>associatedParameters\<close> of every command it names; and when it
  names a translated bulk command, the name of the synthetic phase of that command, the
  one member of the set \<open>phases\<close> of the command, is among its associated phases.
  When the constructor reaches a declared parameter (the phases, the commands, the default
  commands and the parameters listed before it raise no error) and the parameter passes
  the check of the default value: if it names a command that does not exist, the
  constructor throws the error that names the parameter and such a command; if all its
  commands exist and it names a phase that does not exist, the constructor throws the
  error that names the parameter and such a phase.
\<close>

theorem parameter_association:
  "(newCommandLineConfiguration (Some commandLineJson) options = Inr configuration
      \<longrightarrow> clj_parameters commandLineJson = Some parametersJson
      \<longrightarrow> i < length parametersJson
      \<longrightarrow> np_associatedPhases (parameters configuration ! i)
            = associatedPhaseNames configuration (parametersJson ! i)
        \<and> (\<forall>n\<in>set (associatedCommandNames (parametersJson ! i)).
              (\<exists>c. map_of (commands configuration) n = Some c
                  \<and> cmd_associatedParameters c < length (parameterSetHeap configuration)
                  \<and> i \<in> set (parameterSetHeap configuration ! cmd_associatedParameters c))
            \<and> (n \<in> translatedBulkCommandNames (Some commandLineJson) options
                \<longrightarrow> n \<in> set (np_associatedPhases (parameters configuration ! i))
                  \<and> (\<exists>c s a. map_of (commands configuration) n = Some c
                        \<and> cmd_isSynthetic c \<and> cmd_phases c = Some s
                        \<and> s < length (phaseSetHeap configuration)
                        \<and> phaseSetHeap configuration ! s = [a]
                        \<and> a < length (phaseHeap configuration)
                        \<and> ph_isSynthetic (phaseHeap configuration ! a)
                        \<and> ph_name (phaseHeap configuration ! a) = n
                        \<and> map_of (phases configuration) n = Some a))))
   \<and> (clj_parameters commandLineJson = Some (before @ parameter # rest)
      \<longrightarrow> phasesStage (Some commandLineJson) = Inr this1
      \<longrightarrow> constructCommands (Some commandLineJson) this1 = Inr s
      \<longrightarrow> defaultsStage options s = Inr this3
      \<longrightarrow> processParameters before this3 = Inr this
      \<longrightarrow> \<not> defaultValueRejected parameter
      \<longrightarrow> ((\<exists>n\<in>set (associatedCommandNames parameter). map_of (commands this3) n = None)
            \<longrightarrow> (\<exists>n\<in>set (associatedCommandNames parameter).
                   map_of (commands this3) n = None
                 \<and> newCommandLineConfiguration (Some commandLineJson) options
                     = Inl (ParameterCommandDoesNotExist (pr_longName parameter) n)))
        \<and> ((\<forall>n\<in>set (associatedCommandNames parameter). map_of (commands this3) n \<noteq> None)
            \<longrightarrow> (\<exists>n\<in>set (np_associatedPhases (normalizeParameter parameter)).
                   map_of (phases this3) n = None)
            \<longrightarrow> (\<exists>n\<in>set (np_associatedPhases (normalizeParameter parameter)).
                   map_of (phases this3) n = None
                 \<and> newCommandLineConfiguration (Some commandLineJson) options
                     = Inl (ParameterPhaseDoesNotExist (pr_longName parameter) n))))"
proof (intro conjI)
  show "newCommandLineConfiguration (Some commandLineJson) options = Inr configuration
      \<longrightarrow> clj_parameters commandLineJson = Some parametersJson
      \<longrightarrow> i < length parametersJson
      \<longrightarrow> np_associatedPhases (parameters configuration ! i)
            = associatedPhaseNames configuration (parametersJson ! i)
        \<and> (\<forall>n\<in>set (associatedCommandNames (parametersJson ! i)).
              (\<exists>c. map_of (commands configuration) n = Some c
                  \<and> cmd_associatedParameters c < length (parameterSetHeap configuration)
                  \<and> i \<in> set (parameterSetHeap configuration ! cmd_associatedParameters c))
            \<and> (n \<in> translatedBulkCommandNames (Some commandLineJson) options
                \<longrightarrow> n \<in> set (np_associatedPhases (parameters configuration ! i))
                  \<and> (\<exists>c s a. map_of (commands configuration) n = Some c
                        \<and> cmd_isSynthetic c \<and> cmd_phases c = Some s
                        \<and> s < length (phaseSetHeap configuration)
                        \<and> phaseSetHeap configuration ! s = [a]
                        \<and> a < length (phaseHeap configuration)
                        \<and> ph_isSynthetic (phaseHeap configuration ! a)
                        \<and> ph_name (phaseHeap configuration ! a) = n
                        \<and> map_of (phases configuration) n = Some a)))"
  proof (intro impI)
    assume c: "newCommandLineConfiguration (Some commandLineJson) options = Inr configuration"
      and j: "clj_parameters commandLineJson = Some parametersJson"
      and i: "i < length parametersJson"
    let ?names = "associatedCommandNames (parametersJson ! i)"
    from c obtain this1 s this3 where st: "phasesStage (Some commandLineJson) = Inr this1"
      "constructCommands (Some commandLineJson) this1 = Inr s"
      "defaultsStage options s = Inr this3"
      "parametersStage (Some commandLineJson) this3 = Inr configuration"
      by (rule newCommandLineConfiguration_InrE)
    from st(4) j have pp: "processParameters parametersJson this3 = Inr configuration"
      by (simp add: parametersStage_def)
    from processParameters_Inr [OF pp beforeParameters_allocated [OF st(1,2,3)]] i
      beforeParameters_none [OF st(1,2,3)]
    have b: "parameterBound configuration i (parametersJson ! i)" by simp
    then have ph: "np_associatedPhases (parameters configuration ! i)
        = associatedPhaseNames configuration (parametersJson ! i)"
      and m: "\<forall>n\<in>set ?names. \<exists>c. map_of (commands configuration) n = Some c
         \<and> cmd_associatedParameters c < length (parameterSetHeap configuration)
         \<and> i \<in> set (parameterSetHeap configuration ! cmd_associatedParameters c)"
      by (simp_all add: parameterBound_def associatedPhaseNames_def associatedCommandNames_def)
    from parametersStage_frame [OF st(4)] have same: "sameButParameters this3 configuration" .
    from beforeParameters_recorded [OF st(1,2,3)]
    have r3: "translationsRecorded this3"
      and t3: "\<forall>n\<in>translatedBulkCommandNames (Some commandLineJson) options.
          map_of (syntheticPhasesByTranslatedBulkCommandName this3) n \<noteq> None"
      by simp_all
    from translationsRecorded_same [OF r3 same] have r: "translationsRecorded configuration" .
    from same have sy: "syntheticPhasesByTranslatedBulkCommandName configuration
        = syntheticPhasesByTranslatedBulkCommandName this3"
      by (simp add: sameButParameters_def)
    have t: "n \<in> set (np_associatedPhases (parameters configuration ! i))
        \<and> (\<exists>c s a. map_of (commands configuration) n = Some c
              \<and> cmd_isSynthetic c \<and> cmd_phases c = Some s
              \<and> s < length (phaseSetHeap configuration)
              \<and> phaseSetHeap configuration ! s = [a]
              \<and> a < length (phaseHeap configuration)
              \<and> ph_isSynthetic (phaseHeap configuration ! a)
              \<and> ph_name (phaseHeap configuration ! a) = n
              \<and> map_of (phases configuration) n = Some a)"
      if n: "n \<in> set ?names"
        and tr: "n \<in> translatedBulkCommandNames (Some commandLineJson) options" for n
    proof -
      from t3 tr sy obtain a where
        a: "map_of (syntheticPhasesByTranslatedBulkCommandName configuration) n = Some a"
        by auto
      with r obtain c s where o: "a < length (phaseHeap configuration)"
        "ph_name (phaseHeap configuration ! a) = n"
        "ph_isSynthetic (phaseHeap configuration ! a)" "map_of (phases configuration) n = Some a"
        "map_of (commands configuration) n = Some c" "cmd_isSynthetic c" "cmd_phases c = Some s"
        "s < length (phaseSetHeap configuration)" "phaseSetHeap configuration ! s = [a]"
        unfolding translationsRecorded_def by blast
      from syntheticPhaseNames_member [OF _ a, of ?names] n
      have "nameOf (phaseHeap configuration) a \<in> set (syntheticPhaseNames configuration ?names)"
        by simp
      with o(1,2) have "n \<in> set (np_associatedPhases (parameters configuration ! i))"
        unfolding ph by (simp add: associatedPhaseNames_def associatedCommandNames_def nameOf_def)
      with o show ?thesis by blast
    qed
    from ph m t
    show "np_associatedPhases (parameters configuration ! i)
            = associatedPhaseNames configuration (parametersJson ! i)
        \<and> (\<forall>n\<in>set ?names.
              (\<exists>c. map_of (commands configuration) n = Some c
                  \<and> cmd_associatedParameters c < length (parameterSetHeap configuration)
                  \<and> i \<in> set (parameterSetHeap configuration ! cmd_associatedParameters c))
            \<and> (n \<in> translatedBulkCommandNames (Some commandLineJson) options
                \<longrightarrow> n \<in> set (np_associatedPhases (parameters configuration ! i))
                  \<and> (\<exists>c s a. map_of (commands configuration) n = Some c
                        \<and> cmd_isSynthetic c \<and> cmd_phases c = Some s
                        \<and> s < length (phaseSetHeap configuration)
                        \<and> phaseSetHeap configuration ! s = [a]
                        \<and> a < length (phaseHeap configuration)
                        \<and> ph_isSynthetic (phaseHeap configuration ! a)
                        \<and> ph_name (phaseHeap configuration ! a) = n
                        \<and> map_of (phases configuration) n = Some a)))"
      by blast
  qed
next
  show "clj_parameters commandLineJson = Some (before @ parameter # rest)
      \<longrightarrow> phasesStage (Some commandLineJson) = Inr this1
      \<longrightarrow> constructCommands (Some commandLineJson) this1 = Inr s
      \<longrightarrow> defaultsStage options s = Inr this3
      \<longrightarrow> processParameters before this3 = Inr this
      \<longrightarrow> \<not> defaultValueRejected parameter
      \<longrightarrow> ((\<exists>n\<in>set (associatedCommandNames parameter). map_of (commands this3) n = None)
            \<longrightarrow> (\<exists>n\<in>set (associatedCommandNames parameter).
                   map_of (commands this3) n = None
                 \<and> newCommandLineConfiguration (Some commandLineJson) options
                     = Inl (ParameterCommandDoesNotExist (pr_longName parameter) n)))
        \<and> ((\<forall>n\<in>set (associatedCommandNames parameter). map_of (commands this3) n \<noteq> None)
            \<longrightarrow> (\<exists>n\<in>set (np_associatedPhases (normalizeParameter parameter)).
                   map_of (phases this3) n = None)
            \<longrightarrow> (\<exists>n\<in>set (np_associatedPhases (normalizeParameter parameter)).
                   map_of (phases this3) n = None
                 \<and> newCommandLineConfiguration (Some commandLineJson) options
                     = Inl (ParameterPhaseDoesNotExist (pr_longName parameter) n)))"
  proof (intro impI)
    assume j: "clj_parameters commandLineJson = Some (before @ parameter # rest)"
      and st: "phasesStage (Some commandLineJson) = Inr this1"
        "constructCommands (Some commandLineJson) this1 = Inr s"
        "defaultsStage options s = Inr this3"
      and b: "processParameters before this3 = Inr this"
      and v: "\<not> defaultValueRejected parameter"
    from processParameters_frame [OF b] have same: "sameButParameters this3 this" .
    then have cm: "commands this = commands this3" and ph: "phases this = phases this3"
      by (simp_all add: sameButParameters_def)
    from beforeParameters_recorded [OF st] have "translationsRecorded this3" by simp
    from translationsRecorded_same [OF this same] have r: "translationsRecorded this" .
    note err = newCommandLineConfiguration_parameter_error [OF j st b]
    have 1: "\<exists>n\<in>set (associatedCommandNames parameter).
          map_of (commands this3) n = None
          \<and> newCommandLineConfiguration (Some commandLineJson) options
              = Inl (ParameterCommandDoesNotExist (pr_longName parameter) n)"
      if e: "\<exists>n\<in>set (associatedCommandNames parameter). map_of (commands this3) n = None"
    proof -
      from e have "\<exists>n\<in>set (associatedCommandNames parameter). map_of (commands this) n = None"
        unfolding cm .
      from processParameter_missing_command [OF v this]
      obtain n where "n \<in> set (associatedCommandNames parameter)"
        "map_of (commands this) n = None"
        "processParameter parameter this
          = Inl (ParameterCommandDoesNotExist (pr_longName parameter) n)"
        by blast
      with err [of "ParameterCommandDoesNotExist (pr_longName parameter) n"] cm
      show ?thesis by auto
    qed
    have 2: "\<exists>n\<in>set (np_associatedPhases (normalizeParameter parameter)).
          map_of (phases this3) n = None
          \<and> newCommandLineConfiguration (Some commandLineJson) options
              = Inl (ParameterPhaseDoesNotExist (pr_longName parameter) n)"
      if c: "\<forall>n\<in>set (associatedCommandNames parameter). map_of (commands this3) n \<noteq> None"
        and e: "\<exists>n\<in>set (np_associatedPhases (normalizeParameter parameter)).
                  map_of (phases this3) n = None"
    proof -
      from c have c': "\<forall>n\<in>set (associatedCommandNames parameter).
          map_of (commands this) n \<noteq> None"
        unfolding cm .
      from e have e': "\<exists>n\<in>set (np_associatedPhases (normalizeParameter parameter)).
          map_of (phases this) n = None"
        unfolding ph .
      from processParameter_missing_phase [OF v c' r e']
      obtain n where "n \<in> set (np_associatedPhases (normalizeParameter parameter))"
        "map_of (phases this) n = None"
        "processParameter parameter this
          = Inl (ParameterPhaseDoesNotExist (pr_longName parameter) n)"
        by blast
      with err [of "ParameterPhaseDoesNotExist (pr_longName parameter) n"] ph
      show ?thesis by auto
    qed
    from 1 2
    show "((\<exists>n\<in>set (associatedCommandNames parameter). map_of (commands this3) n = None)
            \<longrightarrow> (\<exists>n\<in>set (associatedCommandNames parameter).
                   map_of (commands this3) n = None
                 \<and> newCommandLineConfiguration (Some commandLineJson) options
                     = Inl (ParameterCommandDoesNotExist (pr_longName parameter) n)))
        \<and> ((\<forall>n\<in>set (associatedCommandNames parameter). map_of (commands this3) n \<noteq> None)
            \<longrightarrow> (\<exists>n\<in>set (np_associatedPhases (normalizeParameter parameter)).
                   map_of (phases this3) n = None)
            \<longrightarrow> (\<exists>n\<in>set (np_associatedPhases (normalizeParameter parameter)).
                   map_of (phases this3) n = None
                 \<and> newCommandLineConfiguration (Some commandLineJson) options
                     = Inl (ParameterPhaseDoesNotExist (pr_longName parameter) n)))"
      by blast
  qed
qed


text \<open>
  A parameter of the example names the declared bulk command \<open>bar\<close>; a parameter that names
  the default command \<open>build\<close> and a command that does not exist; a parameter that names
  the default command \<open>build\<close> and a phase that does not exist.
\<close>

definition danglingCommandJson :: ICommandLineJson where
  "danglingCommandJson =
     parametersOnlyJson ([parameterJson ''--x'' [''build''] []]
       @ parameterJson ''--z'' [''build'', ''nope''] [''_phase:none''] # [])"

definition danglingPhaseJson :: ICommandLineJson where
  "danglingPhaseJson =
     parametersOnlyJson ([parameterJson ''--x'' [''build''] []]
       @ parameterJson ''--w'' [''build''] [''_phase:none''] # [])"

theorem parameter_association_witness:
  "newCommandLineConfiguration (Some exampleJson) exampleOptions = Inr exampleConfiguration
   \<and> np_associatedPhases (parameters exampleConfiguration ! 0) = [''_phase:a'', ''bar'', ''build'']
   \<and> ''bar'' \<in> set (np_associatedPhases (parameters exampleConfiguration ! 0))
   \<and> (\<exists>c. map_of (commands exampleConfiguration) ''bar'' = Some c
          \<and> 0 \<in> set (parameterSetHeap exampleConfiguration ! cmd_associatedParameters c))
   \<and> newCommandLineConfiguration (Some danglingCommandJson) exampleOptions
       = Inl (ParameterCommandDoesNotExist ''--z'' ''nope'')
   \<and> newCommandLineConfiguration (Some danglingPhaseJson) exampleOptions
       = Inl (ParameterPhaseDoesNotExist ''--w'' ''_phase:none'')"
proof -
  let ?x = "parameterJson ''--x'' [''foo'', ''bar'', ''build''] [''_phase:a'']"
  have j: "clj_parameters exampleJson = Some [?x, parameterJson ''--y'' [''baz'', ''rebuild''] []]"
    by (simp add: exampleJson_def)
  have i: "0 < length [?x, parameterJson ''--y'' [''baz'', ''rebuild''] []]" by simp
  have e: "associatedPhaseNames exampleConfiguration ?x = [''_phase:a'', ''bar'', ''build'']"
    unfolding exampleConfiguration_def by code_simp
  have n: "''bar'' \<in> set (associatedCommandNames ?x)" by code_simp
  have t: "''bar'' \<in> translatedBulkCommandNames (Some exampleJson) exampleOptions" by code_simp
  note a = parameter_association [where commandLineJson = exampleJson
      and options = exampleOptions and configuration = exampleConfiguration and i = 0,
      THEN conjunct1, rule_format, OF exampleConfiguration j i]
  from a e have 1: "np_associatedPhases (parameters exampleConfiguration ! 0)
      = [''_phase:a'', ''bar'', ''build'']"
    by simp
  from a n t have 2: "''bar'' \<in> set (np_associatedPhases (parameters exampleConfiguration ! 0))"
    by auto
  from a n have 3: "\<exists>c. map_of (commands exampleConfiguration) ''bar'' = Some c
      \<and> 0 \<in> set (parameterSetHeap exampleConfiguration ! cmd_associatedParameters c)"
    by auto
  let ?before = "[parameterJson ''--x'' [''build''] []]"
  let ?z = "parameterJson ''--z'' [''build'', ''nope''] [''_phase:none'']"
  let ?w = "parameterJson ''--w'' [''build''] [''_phase:none'']"
  let ?s = "(emptyConfiguration, None :: nat option)"
  let ?d = "projr (defaultsStage exampleOptions ?s)"
  let ?b = "projr (processParameters ?before ?d)"
  have jz: "clj_parameters danglingCommandJson = Some (?before @ ?z # [])"
    by (simp add: danglingCommandJson_def parametersOnlyJson_def)
  have jw: "clj_parameters danglingPhaseJson = Some (?before @ ?w # [])"
    by (simp add: danglingPhaseJson_def parametersOnlyJson_def)
  have pz: "phasesStage (Some danglingCommandJson) = Inr emptyConfiguration"
    "constructCommands (Some danglingCommandJson) emptyConfiguration = Inr ?s"
    by (simp_all add: phasesStage_def constructCommands_def danglingCommandJson_def
        parametersOnlyJson_def)
  have pw: "phasesStage (Some danglingPhaseJson) = Inr emptyConfiguration"
    "constructCommands (Some danglingPhaseJson) emptyConfiguration = Inr ?s"
    by (simp_all add: phasesStage_def constructCommands_def danglingPhaseJson_def
        parametersOnlyJson_def)
  have "\<not> isl (defaultsStage exampleOptions ?s)" by code_simp
  then have d: "defaultsStage exampleOptions ?s = Inr ?d"
    by (cases "defaultsStage exampleOptions ?s") simp_all
  have "\<not> isl (processParameters ?before ?d)" by code_simp
  then have b: "processParameters ?before ?d = Inr ?b"
    by (cases "processParameters ?before ?d") simp_all
  have v: "\<not> defaultValueRejected ?z" "\<not> defaultValueRejected ?w" by code_simp+
  have names: "associatedCommandNames ?z = [''build'', ''nope'']"
    "associatedCommandNames ?w = [''build'']"
    "np_associatedPhases (normalizeParameter ?w) = [''_phase:none'']"
    "pr_longName ?z = ''--z''" "pr_longName ?w = ''--w''"
    by code_simp+
  have m: "map_of (commands ?d) ''build'' \<noteq> None" "map_of (commands ?d) ''nope'' = None"
    "map_of (phases ?d) ''_phase:none'' = None"
    by code_simp+
  from m(2) names(1) have ez: "\<exists>n\<in>set (associatedCommandNames ?z). map_of (commands ?d) n = None"
    by simp
  from m(1) names(2) have cw: "\<forall>n\<in>set (associatedCommandNames ?w). map_of (commands ?d) n \<noteq> None"
    by simp
  from m(3) names(3) have ew: "\<exists>n\<in>set (np_associatedPhases (normalizeParameter ?w)).
      map_of (phases ?d) n = None"
    by simp
  from parameter_association [where commandLineJson = danglingCommandJson
      and options = exampleOptions,
      THEN conjunct2, rule_format, OF jz pz d b v(1), THEN conjunct1, THEN mp, OF ez]
    names m
  have 4: "newCommandLineConfiguration (Some danglingCommandJson) exampleOptions
       = Inl (ParameterCommandDoesNotExist ''--z'' ''nope'')"
    by auto
  from parameter_association [where commandLineJson = danglingPhaseJson
      and options = exampleOptions,
      THEN conjunct2, rule_format, OF jw pw d b v(2), THEN conjunct2, THEN mp, OF cw,
      THEN mp, OF ew]
    names m
  have 5: "newCommandLineConfiguration (Some danglingPhaseJson) exampleOptions
       = Inl (ParameterPhaseDoesNotExist ''--w'' ''_phase:none'')"
    by auto
  from exampleConfiguration 1 2 3 4 5 show ?thesis by (intro conjI)
qed


section \<open>The limit of Async.forEachAsync\<close>

declare queueOperationsAsync.simps [simp del] onOperationCompletionAsync.simps [simp del]

lemma queueOperationsAsync_unfold:
  "queueOperationsAsync concurrency st =
     (if belowConcurrency (operationsInProgress st) concurrency
         \<and> \<not> iteratorIsComplete st \<and> \<not> promiseHasResolvedOrRejected st
        then st\<lparr>operationsInProgress := operationsInProgress st + 1,
                 awaitingNext := Suc (awaitingNext st)\<rparr>
      else if iteratorIsComplete st \<and> \<not> promiseHasResolvedOrRejected st
                \<and> operationsInProgress st = 0
        then settle Resolved (st\<lparr>promiseHasResolvedOrRejected := True\<rparr>)
      else st)"
  by (subst queueOperationsAsync.simps, subst onOperationCompletionAsync.simps) simp

lemma onOperationCompletionAsync_unfold:
  "onOperationCompletionAsync concurrency st =
     (if promiseHasResolvedOrRejected st then st
      else if operationsInProgress st = 0 \<and> iteratorIsComplete st
        then settle Resolved (st\<lparr>promiseHasResolvedOrRejected := True\<rparr>)
      else if \<not> iteratorIsComplete st
                \<and> belowConcurrency (operationsInProgress st) concurrency
        then st\<lparr>operationsInProgress := operationsInProgress st + 1,
                 awaitingNext := Suc (awaitingNext st)\<rparr>
      else st)"
  by (subst onOperationCompletionAsync.simps, subst queueOperationsAsync.simps) simp

lemma count_list_update:
  "i < length xs \<Longrightarrow>
     int (count_list (xs[i := b]) a) =
       int (count_list xs a) - (if xs ! i = a then 1 else 0) + (if b = a then 1 else 0)"
proof (induction xs arbitrary: i)
  case Nil
  then show ?case by simp
next
  case (Cons x xs)
  show ?case
  proof (cases i)
    case 0
    then show ?thesis by simp
  next
    case (Suc j)
    with Cons.prems have "j < length xs" by simp
    from Cons.IH [OF this] Suc show ?thesis by (auto split: if_splits)
  qed
qed

lemma count_list_update_other:
  "i < length xs \<Longrightarrow> xs ! i \<noteq> a \<Longrightarrow> b \<noteq> a
     \<Longrightarrow> count_list (xs[i := b]) a = count_list xs a"
  using count_list_update [of i xs b a] by simp

lemma count_list_update_to:
  "i < length xs \<Longrightarrow> xs ! i \<noteq> b
     \<Longrightarrow> count_list (xs[i := b]) b = Suc (count_list xs b)"
  using count_list_update [of i xs b b] by simp

lemma count_list_update_from:
  "i < length xs \<Longrightarrow> xs ! i = a \<Longrightarrow> b \<noteq> a
     \<Longrightarrow> Suc (count_list (xs[i := b]) a) = count_list xs a"
  using count_list_update [of i xs b a] by simp

definition accounted :: "nat \<Rightarrow> rat option \<Rightarrow> ForEachState \<Rightarrow> bool" where
  "accounted elements concurrency st \<longleftrightarrow>
     operationsInProgress st =
       int (awaitingNext st) + int (count_list (callbacks st) Running)
         + int (count_list (callbacks st) Fulfilled) + int (count_list (callbacks st) Failed)
     \<and> (\<forall>n. concurrency = Some n \<longrightarrow> of_int (operationsInProgress st) < n + 1)
     \<and> (iteratorIsComplete st \<longrightarrow> remaining st = 0)
     \<and> length (callbacks st) + remaining st = elements
     \<and> pendingRejections st \<le> count_list (callbacks st) Failed
     \<and> (settlement st = Resolved \<longrightarrow> operationsInProgress st = 0 \<and> iteratorIsComplete st)"

lemma settle_fields [simp]:
  "operationsInProgress (settle s st) = operationsInProgress st"
  "iteratorIsComplete (settle s st) = iteratorIsComplete st"
  "promiseHasResolvedOrRejected (settle s st) = promiseHasResolvedOrRejected st"
  "remaining (settle s st) = remaining st"
  "callbacks (settle s st) = callbacks st"
  "awaitingNext (settle s st) = awaitingNext st"
  "pendingRejections (settle s st) = pendingRejections st"
  "settlement (settle s st) = (if settlement st = Pending then s else settlement st)"
  by (simp_all add: settle_def)

lemma queueOperationsAsync_accounted:
  assumes "accounted elements concurrency st"
  shows "accounted elements concurrency (queueOperationsAsync concurrency st)"
  using assms
  by (auto simp: queueOperationsAsync_unfold accounted_def belowConcurrency_def)

lemma onOperationCompletionAsync_accounted:
  assumes "accounted elements concurrency st"
  shows "accounted elements concurrency (onOperationCompletionAsync concurrency st)"
  using assms
  by (auto simp: onOperationCompletionAsync_unfold accounted_def belowConcurrency_def)

lemma step_accounted:
  assumes "accounted elements concurrency st" and "step concurrency e st = Some st'"
  shows "accounted elements concurrency st'"
proof (cases e)
  case IteratorYields
  with assms(2) have e: "0 < awaitingNext st" "0 < remaining st"
    and st': "st' = queueOperationsAsync concurrency
                    (st\<lparr>awaitingNext := awaitingNext st - 1,
                        remaining := remaining st - 1,
                        iteratorIsComplete := False,
                        callbacks := callbacks st @ [Running]\<rparr>)"
    by (auto simp: step_def split: if_splits)
  from assms(1) e have "accounted elements concurrency
      (st\<lparr>awaitingNext := awaitingNext st - 1, remaining := remaining st - 1,
          iteratorIsComplete := False, callbacks := callbacks st @ [Running]\<rparr>)"
    by (auto simp: accounted_def)
  then show ?thesis unfolding st' by (rule queueOperationsAsync_accounted)
next
  case IteratorYieldsCallbackThrows
  with assms show ?thesis
    by (auto simp: step_def accounted_def split: if_splits)
next
  case IteratorDone
  with assms(2) have e: "0 < awaitingNext st" "remaining st = 0"
    and st': "st' = queueOperationsAsync concurrency
                    (st\<lparr>awaitingNext := awaitingNext st - 1,
                        iteratorIsComplete := True,
                        operationsInProgress := operationsInProgress st - 1\<rparr>)"
    by (auto simp: step_def split: if_splits)
  from assms(1) e have "accounted elements concurrency
      (st\<lparr>awaitingNext := awaitingNext st - 1, iteratorIsComplete := True,
          operationsInProgress := operationsInProgress st - 1\<rparr>)"
    by (auto simp: accounted_def)
  then show ?thesis unfolding st' by (rule queueOperationsAsync_accounted)
next
  case (CallbackFulfils i)
  with assms(2) have e: "i < length (callbacks st)" "callbacks st ! i = Running"
    and st': "st' = st\<lparr>callbacks := (callbacks st)[i := Fulfilled]\<rparr>"
    by (auto simp: step_def split: if_splits)
  from e have "count_list ((callbacks st)[i := Fulfilled]) Failed
          = count_list (callbacks st) Failed"
    by (simp add: count_list_update_other)
  with assms(1) e show ?thesis unfolding st'
    by (auto simp: accounted_def count_list_update)
next
  case (CallbackRejects i)
  with assms(2) have e: "i < length (callbacks st)" "callbacks st ! i = Running"
    and st': "st' = st\<lparr>callbacks := (callbacks st)[i := Failed],
                        pendingRejections := Suc (pendingRejections st)\<rparr>"
    by (auto simp: step_def split: if_splits)
  have "int (count_list ((callbacks st)[i := Failed]) Failed)
          = int (count_list (callbacks st) Failed) + 1"
    using e by (simp add: count_list_update)
  then have "count_list ((callbacks st)[i := Failed]) Failed
          = Suc (count_list (callbacks st) Failed)"
    by linarith
  with assms(1) e show ?thesis unfolding st'
    by (auto simp: accounted_def count_list_update)
next
  case (ThenHandler i)
  with assms(2) have e: "i < length (callbacks st)" "callbacks st ! i = Fulfilled"
    and st': "st' = onOperationCompletionAsync concurrency
                      (st\<lparr>callbacks := (callbacks st)[i := Completed],
                          operationsInProgress := operationsInProgress st - 1\<rparr>)"
    by (auto simp: step_def split: if_splits)
  have "0 < count_list (callbacks st) Fulfilled"
    using e by (metis count_list_0_iff gr0I nth_mem)
  moreover from e have "count_list ((callbacks st)[i := Completed]) Failed
          = count_list (callbacks st) Failed"
    by (simp add: count_list_update_other)
  ultimately have "accounted elements concurrency
      (st\<lparr>callbacks := (callbacks st)[i := Completed],
          operationsInProgress := operationsInProgress st - 1\<rparr>)"
    using assms(1) e by (auto simp: accounted_def count_list_update)
  then show ?thesis unfolding st' by (rule onOperationCompletionAsync_accounted)
next
  case CatchHandler
  with assms show ?thesis
    by (auto simp: step_def accounted_def split: if_splits)
qed

lemma execute_accounted:
  "accounted elements concurrency st \<Longrightarrow> execute concurrency events st = Some st'
     \<Longrightarrow> accounted elements concurrency st'"
proof (induction events arbitrary: st)
  case Nil
  then show ?case by simp
next
  case (Cons e es)
  from Cons.prems(2) obtain st1 where s: "step concurrency e st = Some st1"
    and r: "execute concurrency es st1 = Some st'"
    by (auto split: option.splits)
  from step_accounted [OF Cons.prems(1) s] r show ?case by (rule Cons.IH)
qed

lemma effectiveConcurrency_positive:
  "effectiveConcurrency concurrency = Some n \<Longrightarrow> 0 < n"
  by (auto simp: effectiveConcurrency_def split: option.splits if_splits)

lemma forEachAsync_accounted:
  assumes "forEachAsync elements concurrency events = Some st"
  shows "accounted elements (effectiveConcurrency concurrency) st"
proof -
  let ?c = "effectiveConcurrency concurrency"
  let ?st0 = "\<lparr>operationsInProgress = 0, iteratorIsComplete = False,
           promiseHasResolvedOrRejected = False, remaining = elements, callbacks = [],
           awaitingNext = 0, pendingRejections = 0, settlement = Pending\<rparr>"
  have "accounted elements ?c ?st0"
    using effectiveConcurrency_positive [of concurrency] by (auto simp: accounted_def)
  then have "accounted elements ?c (queueOperationsAsync ?c ?st0)"
    by (rule queueOperationsAsync_accounted)
  with assms show ?thesis unfolding forEachAsync_def by (rule execute_accounted [rotated])
qed

text \<open>
  C6, as stated, fails for a limit that is not a whole number: with the limit 1.5 the test
  of the loop passes at 0 and at 1, and two callbacks run at once.
\<close>

theorem forEachAsync_fractional_limit_counterexample:
  "forEachAsync 2 (Some (3 / 2)) [IteratorYields, IteratorYields] \<noteq> None
   \<and> callbacks (the (forEachAsync 2 (Some (3 / 2)) [IteratorYields, IteratorYields]))
       = [Running, Running]
   \<and> (3 / 2 :: rat)
       < of_nat (count_list
           (callbacks (the (forEachAsync 2 (Some (3 / 2)) [IteratorYields, IteratorYields])))
           Running)"
  by (intro conjI) code_simp+

text \<open>
  C6, amended: with a limit \<open>n > 0\<close>, in every state that a call of \<open>forEachAsync\<close> reaches
  at most \<open>n\<close> rounded up to a whole number callbacks are running, which is at most \<open>n\<close> when
  \<open>n\<close> is a whole number; and once the returned promise is resolved the callback of every
  element of the iterable has been called and has completed.
\<close>

theorem forEachAsync_concurrency:
  assumes "0 < n" and "forEachAsync elements (Some n) events = Some st"
  shows "int (count_list (callbacks st) Running) \<le> \<lceil>n\<rceil>
     \<and> (n \<in> \<int> \<longrightarrow> of_nat (count_list (callbacks st) Running) \<le> n)
     \<and> (settlement st = Resolved \<longrightarrow>
          length (callbacks st) = elements \<and> (\<forall>s \<in> set (callbacks st). s = Completed))"
proof -
  from assms(1) have c: "effectiveConcurrency (Some n) = Some n"
    by (simp add: effectiveConcurrency_def)
  from forEachAsync_accounted [OF assms(2)] have a: "accounted elements (Some n) st"
    unfolding c .
  then have b: "of_int (operationsInProgress st) < n + 1"
    and r: "int (count_list (callbacks st) Running) \<le> operationsInProgress st"
    by (simp_all add: accounted_def)
  from b have "operationsInProgress st < \<lceil>n\<rceil> + 1"
    by (metis ceiling_add_one less_ceiling_iff)
  with r have 1: "int (count_list (callbacks st) Running) \<le> \<lceil>n\<rceil>" by linarith
  have 2: "of_nat (count_list (callbacks st) Running) \<le> n" if "n \<in> \<int>"
  proof -
    from that obtain k where k: "n = of_int k" by (auto elim: Ints_cases)
    from 1 have "int (count_list (callbacks st) Running) \<le> k" unfolding k by simp
    then have "(of_int (int (count_list (callbacks st) Running)) :: rat) \<le> of_int k"
      by (simp only: of_int_le_iff)
    then show ?thesis unfolding k by simp
  qed
  have 3: "length (callbacks st) = elements \<and> (\<forall>s \<in> set (callbacks st). s = Completed)"
    if r: "settlement st = Resolved"
  proof -
    from a r have z: "count_list (callbacks st) Running = 0"
      "count_list (callbacks st) Fulfilled = 0" "count_list (callbacks st) Failed = 0"
      and "remaining st = 0" and l: "length (callbacks st) + remaining st = elements"
      by (auto simp: accounted_def)
    then have "length (callbacks st) = elements" by simp
    moreover have "s = Completed" if "s \<in> set (callbacks st)" for s
      using z that by (cases s) (auto simp: count_list_0_iff)
    ultimately show ?thesis by blast
  qed
  from 1 2 3 show ?thesis by blast
qed

definition exampleEvents :: "Event list" where
  "exampleEvents =
     [IteratorYields, IteratorYields, CallbackFulfils 1, ThenHandler 1, IteratorYields,
      CallbackFulfils 0, CallbackFulfils 2, ThenHandler 0, IteratorDone, ThenHandler 2]"

theorem forEachAsync_concurrency_witness:
  "settlement (the (forEachAsync 3 (Some 2) exampleEvents)) = Resolved
   \<and> count_list (callbacks (the (forEachAsync 3 (Some 2) exampleEvents))) Running \<le> 2
   \<and> length (callbacks (the (forEachAsync 3 (Some 2) exampleEvents))) = 3
   \<and> set (callbacks (the (forEachAsync 3 (Some 2) exampleEvents))) \<subseteq> {Completed}"
proof -
  let ?r = "forEachAsync 3 (Some 2) exampleEvents"
  have "?r \<noteq> None" by code_simp
  then have e: "?r = Some (the ?r)" by simp
  have r: "settlement (the ?r) = Resolved" by code_simp
  have n: "(0::rat) < 2" by simp
  have w: "(2::rat) \<in> \<int>" by simp
  note t = forEachAsync_concurrency [OF n e]
  from t w have "(of_nat (count_list (callbacks (the ?r)) Running) :: rat) \<le> 2" by blast
  then have "(of_nat (count_list (callbacks (the ?r)) Running) :: rat) \<le> of_nat 2" by simp
  then have 1: "count_list (callbacks (the ?r)) Running \<le> 2" by (simp only: of_nat_le_iff)
  from t r have 2: "length (callbacks (the ?r)) = 3" by blast
  from t r have 3: "set (callbacks (the ?r)) \<subseteq> {Completed}" by blast
  from r 1 2 3 show ?thesis by (intro conjI)
qed

text \<open>With the limit 1 a second element is not delivered while the first callback runs.\<close>

lemma forEachAsync_limit_one:
  "forEachAsync 3 (Some 1) [IteratorYields, IteratorYields] = None"
  by code_simp

end
